theory Spec2Isabelle
  imports Main "HOL-Library.Word"
begin

unbundle bit_operations_syntax

section \<open>POCSAG encoder: constants of pocsag.h\<close>

text \<open>
  Codewords and every value the source shifts or masks are \<open>uint32_t\<close>: they are
  modelled as \<open>32 word\<close>, so that a left shift drops the bits that leave the word.
  The words, samples and bytes a function writes are a list, and the counters that only
  count what has been written (loop counters, batch positions, the count \<open>encodeASCII\<close>
  returns) are \<open>nat\<close>. The lengths the source computes by arithmetic, in \<open>size_t\<close> and in
  \<open>int\<close>, are computed in the model with the wrap-around of these types, defined below.
\<close>

type_synonym u32 = "32 word"
type_synonym u8 = "8 word"
type_synonym i16 = "16 word"

definition SYNC :: u32 where
  "SYNC = 0x7CD215D8"

definition IDLE :: u32 where
  "IDLE = 0x7A89C197"

definition FRAME_SIZE :: u32 where
  "FRAME_SIZE = 2"

definition BATCH_SIZE :: nat where
  "BATCH_SIZE = 16"

definition PREAMBLE_LENGTH :: nat where
  "PREAMBLE_LENGTH = 576"

definition FLAG_MESSAGE :: u32 where
  "FLAG_MESSAGE = 0x100000"

definition FLAG_TEXT_DATA :: u32 where
  "FLAG_TEXT_DATA = 0x3"

definition TEXT_BITS_PER_WORD :: nat where
  "TEXT_BITS_PER_WORD = 20"

definition TEXT_BITS_PER_CHAR :: nat where
  "TEXT_BITS_PER_CHAR = 7"

definition CRC_BITS :: nat where
  "CRC_BITS = 10"

definition CRC_GENERATOR :: u32 where
  "CRC_GENERATOR = 0x769"

definition SYMRATE :: nat where
  "SYMRATE = 38400"

section \<open>Arithmetic of \<open>size_t\<close> and \<open>int\<close>\<close>

text \<open>
  \<open>size_t\<close> is declared by the C library of the platform, not by the repository: its
  width in bits is the parameter \<open>sz\<close> of the functions that compute in it (32 on the
  ARM target of the firmware, 64 on a desktop host). A \<open>size_t\<close> value is a natural
  number below \<open>2 ^ sz\<close>, and every sum and product is reduced modulo \<open>2 ^ sz\<close>.
\<close>

definition size_wrap :: "nat \<Rightarrow> nat \<Rightarrow> nat" where
  "size_wrap sz x = x mod 2 ^ sz"

text \<open>
  An \<open>int\<close> has 32 bits and is modelled by its value. C gives no value to a sum or
  product that leaves the range of \<open>int\<close>; the model wraps it around in two's
  complement, as the 32-bit arithmetic of the machine does. Division truncates towards
  zero, and an \<open>int\<close> added to a \<open>size_t\<close> is first converted modulo \<open>2 ^ sz\<close>.
\<close>

definition int_wrap :: "int \<Rightarrow> int" where
  "int_wrap x = (x + 2 ^ 31) mod 2 ^ 32 - 2 ^ 31"

definition int_div :: "int \<Rightarrow> int \<Rightarrow> int" where
  "int_div a b = (if (a < 0) = (b < 0) then \<bar>a\<bar> div \<bar>b\<bar> else - (\<bar>a\<bar> div \<bar>b\<bar>))"

definition int_to_size :: "nat \<Rightarrow> int \<Rightarrow> nat" where
  "int_to_size sz x = nat (x mod 2 ^ sz)"

section \<open>CRC, parity and codewords\<close>

text \<open>
  One iteration of the loop of \<open>crc\<close>: the state is \<open>(msg, denominator)\<close>; the message
  bit of the current column decides whether the denominator is XORed in, then the
  denominator moves one column to the right.
\<close>

definition crc_step :: "u32 \<times> u32 \<Rightarrow> nat \<Rightarrow> u32 \<times> u32" where
  "crc_step s column =
     (let msg = fst s; denominator = snd s;
          msgBit = drop_bit (30 - column) msg AND 1;
          msg' = (if msgBit \<noteq> 0 then msg XOR denominator else msg)
      in (msg', drop_bit 1 denominator))"

text \<open>
  The division loop of \<open>crc\<close> (columns 0 to 20), started on an already shifted message.
\<close>

definition crc_divide :: "u32 \<Rightarrow> u32" where
  "crc_divide msg = fst (foldl crc_step (msg, push_bit 20 CRC_GENERATOR) [0..<21])"

definition crc :: "u32 \<Rightarrow> u32" where
  "crc inputMsg = crc_divide (push_bit CRC_BITS inputMsg) AND 0x3FF"

definition parity_step :: "u32 \<times> u32 \<Rightarrow> nat \<Rightarrow> u32 \<times> u32" where
  "parity_step s i = (let p = fst s; x = snd s in (p XOR (x AND 1), drop_bit 1 x))"

definition parity :: "u32 \<Rightarrow> u32" where
  "parity x = fst (foldl parity_step (0, x) [0..<32])"

definition encodeCodeword :: "u32 \<Rightarrow> u32" where
  "encodeCodeword msg =
     (let fullCRC = push_bit CRC_BITS msg OR crc msg;
          p = parity fullCRC
      in push_bit 1 fullCRC OR p)"

text \<open>
  The number of set bits of a 32-bit value, used to say what \<open>parity\<close> computes.
\<close>

definition popcount :: "u32 \<Rightarrow> nat" where
  "popcount x = length (filter (bit x) [0..<32])"

section \<open>Text packer\<close>

text \<open>
  The local variables of \<open>encodeASCII\<close>. The words written through the advancing
  pointer \<open>out\<close> are kept in the order in which they were written.
\<close>

record enc_state =
  currentWord :: u32
  currentNumBits :: nat
  wordPosition :: nat
  numWordsWritten :: nat
  out :: "u32 list"

text \<open>
  Writing one data word: the word gets the MESSAGE flag and is encoded, the counters
  advance, and a SYNC word follows when the batch is full. The source has this block
  twice, inside the bit loop and for the remainder of the message.
\<close>

definition put_codeword :: "u32 \<Rightarrow> enc_state \<Rightarrow> enc_state" where
  "put_codeword w s =
     (let s1 = s\<lparr>out := out s @ [encodeCodeword (w OR FLAG_MESSAGE)],
                 numWordsWritten := numWordsWritten s + 1,
                 wordPosition := wordPosition s + 1\<rparr>
      in if wordPosition s1 = BATCH_SIZE
         then s1\<lparr>out := out s1 @ [SYNC],
                 numWordsWritten := numWordsWritten s1 + 1,
                 wordPosition := 0\<rparr>
         else s1)"

text \<open>The body of the loop over the bits \<open>i\<close> of one character \<open>c\<close>.\<close>

definition encode_bit :: "u8 \<Rightarrow> enc_state \<Rightarrow> nat \<Rightarrow> enc_state" where
  "encode_bit c s i =
     (let cw = push_bit 1 (currentWord s) OR (drop_bit i (ucast c) AND 1);
          nb = currentNumBits s + 1;
          s1 = s\<lparr>currentWord := cw, currentNumBits := nb\<rparr>
      in if nb = TEXT_BITS_PER_WORD
         then (put_codeword cw s1)\<lparr>currentWord := 0, currentNumBits := 0\<rparr>
         else s1)"

text \<open>
  The loop over the characters of a C string: it stops at the first zero byte; the end
  of the list stands for the terminating zero.
\<close>

fun encode_chars :: "u8 list \<Rightarrow> enc_state \<Rightarrow> enc_state" where
  "encode_chars [] s = s"
| "encode_chars (c # str) s =
     (if c = 0 then s
      else encode_chars str (foldl (encode_bit c) s [0..<TEXT_BITS_PER_CHAR]))"

text \<open>
  \<open>encodeASCII\<close> returns the count it kept together with the words it wrote.
\<close>

definition encodeASCII :: "nat \<Rightarrow> u8 list \<Rightarrow> nat \<times> u32 list" where
  "encodeASCII initial_offset str =
     (let s0 = \<lparr>currentWord = 0, currentNumBits = 0, wordPosition = initial_offset,
                 numWordsWritten = 0, out = []\<rparr>;
          s1 = encode_chars str s0;
          s2 = (if currentNumBits s1 > 0
                then put_codeword (push_bit (20 - currentNumBits s1) (currentWord s1)) s1
                else s1)
      in (numWordsWritten s2, out s2))"

text \<open>
  The characters of a C string, those before the first zero byte, and \<open>strlen\<close>, their
  number.
\<close>

definition c_string :: "u8 list \<Rightarrow> u8 list" where
  "c_string str = takeWhile (\<lambda>c. c \<noteq> 0) str"

definition strlen :: "u8 list \<Rightarrow> nat" where
  "strlen str = length (c_string str)"

section \<open>Transmission assembler and length calculator\<close>

definition addressOffset :: "u32 \<Rightarrow> u32" where
  "addressOffset address = (address AND 0x7) * FRAME_SIZE"

text \<open>
  The words \<open>encodeTransmission\<close> writes from \<open>start\<close> (the first SYNC) up to and
  including the IDLE word that ends the message. The address is an \<open>int\<close> in the source;
  it is modelled by its 32-bit pattern, and its right shift is the arithmetic one. The
  source advances its pointer by the count \<open>encodeASCII\<close> returns; that count is the
  number of words \<open>encodeASCII\<close> wrote, so the IDLE word follows them directly.
\<close>

definition transmission_body :: "u32 \<Rightarrow> u8 list \<Rightarrow> u32 list" where
  "transmission_body address message =
     (let prefixLength = unat (addressOffset address)
      in [SYNC]
         @ replicate prefixLength IDLE
         @ [encodeCodeword (push_bit 2 (signed_drop_bit 3 address) OR FLAG_TEXT_DATA)]
         @ snd (encodeASCII (unat (addressOffset address) + 1) message)
         @ [IDLE])"

definition encodeTransmission :: "u32 \<Rightarrow> u8 list \<Rightarrow> u32 list" where
  "encodeTransmission address message =
     (let preamble = replicate (PREAMBLE_LENGTH div 32) 0xAAAAAAAA;
          body = transmission_body address message;
          written = length body;
          padding = (BATCH_SIZE + 1) - written mod (BATCH_SIZE + 1)
      in preamble @ body @ replicate padding IDLE)"

text \<open>
  \<open>textMessageLength\<close>. The number of characters is an \<open>int\<close>, and the number of text
  words is computed from it in \<open>int\<close>; everything else is computed in \<open>size_t\<close>. In
  \<open>BATCH_SIZE - numWords % BATCH_SIZE\<close> the remainder is below 16, so the difference
  needs no wrap-around.
\<close>

definition textMessageLength :: "nat \<Rightarrow> u32 \<Rightarrow> int \<Rightarrow> nat" where
  "textMessageLength sz address numChars =
     (let numWords = 0;
          numWords = size_wrap sz (numWords + unat (addressOffset address));
          numWords = size_wrap sz (numWords + 1);
          numWords = size_wrap sz (numWords + int_to_size sz
            (int_div
               (int_wrap (int_wrap (numChars * int TEXT_BITS_PER_CHAR)
                          + (int TEXT_BITS_PER_WORD - 1)))
               (int TEXT_BITS_PER_WORD)));
          numWords = size_wrap sz (numWords + 1);
          numWords = size_wrap sz (numWords + (BATCH_SIZE - numWords mod BATCH_SIZE));
          numWords = size_wrap sz (numWords + numWords div BATCH_SIZE);
          numWords = size_wrap sz (numWords + PREAMBLE_LENGTH div 32)
      in numWords)"

section \<open>PCM synthesizer\<close>

text \<open>
  Sample rates and baud rates are \<open>uint32_t\<close> values, given as natural numbers; a
  division by zero, which HOL would evaluate to 0, is an error of the model. Samples are
  \<open>int16_t\<close>, modelled as \<open>16 word\<close>. The length is computed from left to right in
  \<open>size_t\<close>: each of the two products and the final doubling wraps around.
\<close>

datatype pcm_error = DivisionByZero

definition pcmTransmissionLength :: "nat \<Rightarrow> nat \<Rightarrow> nat \<Rightarrow> nat \<Rightarrow> pcm_error + nat" where
  "pcmTransmissionLength sz sampleRate baudRate transmissionLength =
     (if baudRate = 0 then Inl DivisionByZero
      else Inr (size_wrap sz
                  (size_wrap sz (size_wrap sz (transmissionLength * 32) * sampleRate)
                     div baudRate * 2)))"

text \<open>
  The sample of bit \<open>bitNum\<close> of a word, most significant bit first. In C,
  \<open>32767 / 2\<close> is 16383 and \<open>-32767 / 2\<close> is -16383, since division truncates
  towards zero.
\<close>

definition symbol_sample :: "u32 \<Rightarrow> nat \<Rightarrow> i16" where
  "symbol_sample val bitNum =
     (let b = drop_bit (31 - bitNum) val AND 1
      in if b = 0 then 16383 else - 16383)"

text \<open>The samples written for one word, and for the whole transmission.\<close>

definition word_samples :: "nat \<Rightarrow> u32 \<Rightarrow> i16 list" where
  "word_samples repeatsPerBit val =
     concat (map (\<lambda>bitNum. replicate repeatsPerBit (symbol_sample val bitNum)) [0..<32])"

definition pcm_samples :: "nat \<Rightarrow> u32 list \<Rightarrow> i16 list" where
  "pcm_samples repeatsPerBit transmission =
     concat (map (word_samples repeatsPerBit) transmission)"

text \<open>
  The index into the sample buffer that the resampling loop reads when its counter
  is \<open>i\<close>: \<open>(i / 2) * SYMRATE / sampleRate\<close>, whose product is a \<open>size_t\<close>.
\<close>

definition resample_index :: "nat \<Rightarrow> nat \<Rightarrow> nat \<Rightarrow> nat" where
  "resample_index sz sampleRate i = size_wrap sz ((i div 2) * SYMRATE) div sampleRate"

text \<open>
  Reading \<open>*(samples + idx)\<close>. The source does not check the index. Inside the
  allocated buffer the read gives the sample stored there; past its end C leaves the
  value undefined, and the model takes it from \<open>beyond\<close>, the memory that happens to
  follow the buffer.
\<close>

definition read_sample :: "i16 list \<Rightarrow> (nat \<Rightarrow> i16) \<Rightarrow> nat \<Rightarrow> i16" where
  "read_sample samples beyond idx =
     (if idx < length samples then samples ! idx else beyond idx)"

text \<open>
  The two bytes of a sample. The \<open>int16_t\<close> is promoted to \<open>int\<close> (sign extension)
  before it is masked and shifted.
\<close>

definition sample_lo :: "i16 \<Rightarrow> u8" where
  "sample_lo inSample = ucast ((scast inSample :: u32) AND 0xFF)"

definition sample_hi :: "i16 \<Rightarrow> u8" where
  "sample_hi inSample = ucast (signed_drop_bit 8 (scast inSample :: u32) AND 0xFF)"

text \<open>
  The resampling loop, \<open>for (i = 0; i < outputSize; i += 2)\<close>; the bytes stored at
  \<open>out + i\<close> and \<open>out + i + 1\<close> are returned in the order of their addresses. The
  counter is even and below the even \<open>outputSize\<close>, so \<open>i + 2\<close> does not wrap.
\<close>

function resample_loop ::
    "nat \<Rightarrow> nat \<Rightarrow> i16 list \<Rightarrow> (nat \<Rightarrow> i16) \<Rightarrow> nat \<Rightarrow> nat \<Rightarrow> u8 list" where
  "resample_loop sz sampleRate samples beyond outputSize i =
     (if i < outputSize
      then (let inSample = read_sample samples beyond (resample_index sz sampleRate i)
            in sample_lo inSample # sample_hi inSample
               # resample_loop sz sampleRate samples beyond outputSize (i + 2))
      else [])"
  by pat_completeness auto
termination
  by (relation "measure (\<lambda>(sz, sampleRate, samples, beyond, outputSize, i). outputSize - i)")
    auto

declare resample_loop.simps [simp del]

text \<open>
  \<open>pcmEncodeTransmission\<close>. The transmission is given as the list of its words, whose
  length is \<open>transmissionLength\<close>. The loop divides by \<open>sampleRate\<close> in every
  iteration, so a zero sample rate is an error exactly when the loop runs at all. The
  sample buffer is the list of the samples the first loop writes; \<open>malloc\<close> is asked for
  \<open>2 * transmissionLength * 32 * repeatsPerBit\<close> bytes, which holds them all when this
  product does not wrap.
\<close>

definition pcmEncodeTransmission ::
    "nat \<Rightarrow> nat \<Rightarrow> nat \<Rightarrow> u32 list \<Rightarrow> (nat \<Rightarrow> i16) \<Rightarrow> pcm_error + u8 list" where
  "pcmEncodeTransmission sz sampleRate baudRate transmission beyond =
     (if baudRate = 0 then Inl DivisionByZero
      else
        (let transmissionLength = length transmission;
             repeatsPerBit = SYMRATE div baudRate;
             samples = pcm_samples repeatsPerBit transmission
         in case pcmTransmissionLength sz sampleRate baudRate transmissionLength of
              Inl e \<Rightarrow> Inl e
            | Inr outputSize \<Rightarrow>
                if 0 < outputSize \<and> sampleRate = 0 then Inl DivisionByZero
                else Inr (resample_loop sz sampleRate samples beyond outputSize 0)))"

section \<open>Notions used to state and prove the properties\<close>

text \<open>
  Shifting one bit into the accumulator, as the bit loop of \<open>encodeASCII\<close> does.
\<close>

definition shift_in :: "u32 \<Rightarrow> bool \<Rightarrow> u32" where
  "shift_in w b = push_bit 1 w OR of_bool b"

text \<open>
  The counters of \<open>encodeASCII\<close> after \<open>k\<close> message bits, when it was started at batch
  position \<open>off\<close>: this is the invariant of its loops.
\<close>

definition counted :: "nat \<Rightarrow> nat \<Rightarrow> enc_state \<Rightarrow> bool" where
  "counted off k s \<longleftrightarrow>
     currentNumBits s = k mod 20
   \<and> wordPosition s = (off + k div 20) mod 16
   \<and> numWordsWritten s = k div 20 + (off + k div 20) div 16
   \<and> length (out s) = numWordsWritten s"

text \<open>
  What a receiver sees. A data codeword has the message flag, bit 31, set; its payload
  is bits 30 to 11, read most significant bit first. The seven bits of a character are
  listed least significant bit first.
\<close>

definition is_data_word :: "u32 \<Rightarrow> bool" where
  "is_data_word w = bit w 31"

definition payload_bits :: "u32 \<Rightarrow> bool list" where
  "payload_bits w = map (\<lambda>i. bit w (30 - i)) [0..<20]"

definition data_bits :: "u32 list \<Rightarrow> bool list" where
  "data_bits ws = concat (map payload_bits (filter is_data_word ws))"

definition char_bits :: "u8 \<Rightarrow> bool list" where
  "char_bits c = map (bit c) [0..<7]"

text \<open>The \<open>k\<close> low bits of the accumulator, most significant bit first.\<close>

definition acc_bits :: "u32 \<Rightarrow> nat \<Rightarrow> bool list" where
  "acc_bits w k = map (\<lambda>i. bit w (k - 1 - i)) [0..<k]"

text \<open>
  The message bits a state of \<open>encodeASCII\<close> holds: those of the data words written so
  far, followed by those in the accumulator.
\<close>

definition held_bits :: "enc_state \<Rightarrow> bool list" where
  "held_bits s = data_bits (out s) @ acc_bits (currentWord s) (currentNumBits s)"

text \<open>
  Batch framing. A list of words that starts at index \<open>start\<close> of the words after the
  preamble is aligned when its SYNC words are exactly those at the multiples of 17. The
  second notion is the invariant of \<open>encodeASCII\<close>, started at batch position \<open>p\<close>, that
  keeps its output aligned.
\<close>

definition sync_aligned :: "nat \<Rightarrow> u32 list \<Rightarrow> bool" where
  "sync_aligned start ws \<longleftrightarrow> (\<forall>j < length ws. (ws ! j = SYNC) = ((start + j) mod 17 = 0))"

definition aligned_state :: "nat \<Rightarrow> enc_state \<Rightarrow> bool" where
  "aligned_state p s \<longleftrightarrow>
     sync_aligned (p + 1) (out s) \<and> wordPosition s < 16
     \<and> wordPosition s = (p + length (out s)) mod 17"

text \<open>
  A decoder for tests: it cuts the payload bits into groups of seven, reads each group
  as a character with its least significant bit first, and stops at the first zero
  character.
\<close>

fun chunks7 :: "bool list \<Rightarrow> bool list list" where
  "chunks7 (b0 # b1 # b2 # b3 # b4 # b5 # b6 # bs) = [b0, b1, b2, b3, b4, b5, b6] # chunks7 bs"
| "chunks7 bs = []"

definition bits_char :: "bool list \<Rightarrow> u8" where
  "bits_char bs = foldr (\<lambda>b acc. push_bit 1 acc OR of_bool b) bs 0"

definition decode_text :: "u32 list \<Rightarrow> u8 list" where
  "decode_text ws = takeWhile (\<lambda>c. c \<noteq> 0) (map bits_char (chunks7 (data_bits ws)))"

text \<open>
  What a CRC is, said without the loop of \<open>crc\<close>. A natural number stands for the
  polynomial over GF(2) whose coefficient of \<open>x ^ i\<close> is its bit \<open>i\<close>; the sum of two
  polynomials is the XOR of the numbers. \<open>gf2_mult q g\<close> is the product of \<open>q\<close> and
  \<open>g\<close>: with \<open>q = q0 + x * q'\<close> it is \<open>q0 * g + x * (q' * g)\<close>.
\<close>

function gf2_mult :: "nat \<Rightarrow> nat \<Rightarrow> nat" where
  "gf2_mult q g =
     (if q = 0 then 0 else (if odd q then g else 0) XOR 2 * gf2_mult (q div 2) g)"
  by pat_completeness auto
termination
  by (relation "measure fst") auto

declare gf2_mult.simps [simp del]

section \<open>CRC, parity and the fields of a codeword\<close>

subsection \<open>Bits and bounds of 32-bit words\<close>

lemma bit_above_bound:
  fixes w :: u32
  assumes "unat w < 2 ^ k" and "k \<le> i"
  shows "\<not> bit w i"
proof
  assume "bit w i"
  then have "bit (unat w) i" by (simp add: bit_unsigned_iff)
  then have "odd (unat w div 2 ^ i)" by (simp add: bit_iff_odd)
  then have "unat w div 2 ^ i \<noteq> 0" by (metis even_zero)
  then have "2 ^ i \<le> unat w" by (simp add: div_eq_0_iff not_less)
  moreover have "(2::nat) ^ k \<le> 2 ^ i" using assms(2) by simp
  ultimately show False using assms(1) by linarith
qed

lemma bound_of_bits:
  fixes w :: u32
  assumes "\<And>i. k \<le> i \<Longrightarrow> \<not> bit w i"
  shows "unat w < 2 ^ k"
proof -
  have "take_bit k w = w"
  proof (rule bit_word_eqI)
    fix n assume "n < LENGTH(32)"
    show "bit (take_bit k w) n = bit w n"
      using assms [of n] by (cases "k \<le> n") (auto simp: bit_take_bit_iff)
  qed
  then have "unat w = take_bit k (unat w)"
    by (metis unsigned_take_bit_eq)
  then show ?thesis
    by (metis take_bit_nat_less_exp)
qed

lemma and1_of_bool: "drop_bit k (x::u32) AND 1 = of_bool (bit x k)"
  by (rule bit_word_eqI) (auto simp: bit_and_iff bit_drop_bit_eq bit_1_iff bit_of_bool_iff)

lemma and1_bit: "(drop_bit k (x::u32) AND 1 \<noteq> 0) = bit x k"
  by (simp add: and1_of_bool)

subsection \<open>The division loop of \<open>crc\<close>\<close>

lemma crc_step_fst:
  "fst (crc_step (m, d) c) = (if bit m (30 - c) then m XOR d else m)"
  by (simp add: crc_step_def Let_def and1_bit)

lemma crc_step_snd: "snd (crc_step (m, d) c) = drop_bit 1 d"
  by (simp add: crc_step_def Let_def)

lemma crc_loop_snd: "snd (foldl crc_step (m, d) [0..<n]) = drop_bit n d"
proof (induction n)
  case 0
  show ?case by simp
next
  case (Suc n)
  have "snd (foldl crc_step (m, d) [0..<Suc n])
        = snd (crc_step (foldl crc_step (m, d) [0..<n]) n)" by simp
  also have "\<dots> = drop_bit 1 (snd (foldl crc_step (m, d) [0..<n]))"
    by (cases "foldl crc_step (m, d) [0..<n]") (simp add: crc_step_snd)
  finally show ?case by (simp add: Suc drop_bit_drop_bit)
qed

lemma crc_loop_Suc:
  "fst (foldl crc_step (m, d) [0..<Suc n])
   = (let m' = fst (foldl crc_step (m, d) [0..<n])
      in if bit m' (30 - n) then m' XOR drop_bit n d else m')"
proof -
  obtain m' d' where s: "foldl crc_step (m, d) [0..<n] = (m', d')"
    by (cases "foldl crc_step (m, d) [0..<n]")
  have "d' = drop_bit n d" using crc_loop_snd [of m d n] s by simp
  then show ?thesis by (simp add: s crc_step_fst Let_def)
qed

lemma crc_loop_xor:
  "fst (foldl crc_step (a XOR b, d) [0..<n])
   = fst (foldl crc_step (a, d) [0..<n]) XOR fst (foldl crc_step (b, d) [0..<n])"
proof (induction n)
  case 0
  show ?case by simp
next
  case (Suc n)
  show ?case
    unfolding crc_loop_Suc Let_def Suc
    by (auto simp: bit_xor_iff ac_simps)
qed

lemma bit_CRC_GENERATOR: "bit CRC_GENERATOR k \<longleftrightarrow> k \<in> {0, 3, 5, 6, 8, 9, 10}"
proof -
  have "unat CRC_GENERATOR < 2 ^ 11" by (simp add: CRC_GENERATOR_def)
  then have hi: "\<not> bit CRC_GENERATOR k" if "11 \<le> k" for k
    using that bit_above_bound by blast
  have lo: "k < 11 \<Longrightarrow> k = 0 \<or> k = 1 \<or> k = 2 \<or> k = 3 \<or> k = 4 \<or> k = 5 \<or> k = 6
    \<or> k = 7 \<or> k = 8 \<or> k = 9 \<or> k = 10" by arith
  show ?thesis
  proof (cases "k < 11")
    case True
    from lo [OF this] show ?thesis
      by (auto simp: CRC_GENERATOR_def bit_numeral_word_iff)
  next
    case False
    with hi show ?thesis by auto
  qed
qed

lemma bit_denominator:
  "bit (drop_bit n (push_bit 20 CRC_GENERATOR)) j
   \<longleftrightarrow> 20 \<le> n + j \<and> n + j - 20 \<in> {0, 3, 5, 6, 8, 9, 10}"
  by (auto simp: bit_drop_bit_eq bit_push_bit_iff bit_CRC_GENERATOR)

lemma crc_loop_clears:
  assumes "\<And>i. 31 \<le> i \<Longrightarrow> \<not> bit m i" and "n \<le> 21" and "31 - n \<le> i"
  shows "\<not> bit (fst (foldl crc_step (m, push_bit 20 CRC_GENERATOR) [0..<n])) i"
  using assms(2,3)
proof (induction n arbitrary: i)
  case 0
  then show ?case using assms(1) by simp
next
  case (Suc n)
  let ?m' = "fst (foldl crc_step (m, push_bit 20 CRC_GENERATOR) [0..<n])"
  have ih: "\<not> bit ?m' j" if "31 - n \<le> j" for j
    using Suc.IH [of j] Suc.prems(1) that by simp
  show ?case
  proof (cases "i = 30 - n")
    case True
    then show ?thesis using Suc.prems ih [of "31 - n"]
      unfolding crc_loop_Suc Let_def
      by (auto simp: bit_xor_iff bit_denominator)
  next
    case False
    then have "31 - n \<le> i" using Suc.prems by simp
    then have "\<not> bit ?m' i" by (rule ih)
    then show ?thesis using Suc.prems \<open>31 - n \<le> i\<close>
      unfolding crc_loop_Suc Let_def
      by (auto simp: bit_xor_iff bit_denominator)
  qed
qed

lemma crc_loop_small:
  assumes "\<And>i. 10 \<le> i \<Longrightarrow> \<not> bit m i" and "n \<le> 21"
  shows "fst (foldl crc_step (m, d) [0..<n]) = m"
  using assms(2)
proof (induction n)
  case 0
  show ?case by simp
next
  case (Suc n)
  then have "fst (foldl crc_step (m, d) [0..<n]) = m" by simp
  moreover have "\<not> bit m (30 - n)" using Suc.prems by (intro assms(1)) simp
  ultimately show ?case unfolding crc_loop_Suc Let_def by simp
qed

lemma crc_divide_xor: "crc_divide (a XOR b) = crc_divide a XOR crc_divide b"
  by (simp add: crc_divide_def crc_loop_xor)

lemma crc_divide_small:
  assumes "\<And>i. 10 \<le> i \<Longrightarrow> \<not> bit m i"
  shows "crc_divide m = m"
  unfolding crc_divide_def by (rule crc_loop_small) (use assms in auto)

lemma crc_divide_clears:
  assumes "\<And>i. 31 \<le> i \<Longrightarrow> \<not> bit m i" and "10 \<le> i"
  shows "\<not> bit (crc_divide m) i"
  unfolding crc_divide_def by (rule crc_loop_clears) (use assms in auto)

subsection \<open>Parity\<close>

lemma parity_step_eq:
  "parity_step (p, x) i = (p XOR of_bool (bit x 0), drop_bit 1 x)"
  using and1_of_bool [of 0 x] by (simp add: parity_step_def Let_def)

lemma parity_loop:
  "foldl parity_step (p, x) [0..<n]
   = (p XOR of_bool (odd (length (filter (bit x) [0..<n]))), drop_bit n x)"
proof (induction n)
  case 0
  show ?case by simp
next
  case (Suc n)
  have "foldl parity_step (p, x) [0..<Suc n]
        = parity_step (p XOR of_bool (odd (length (filter (bit x) [0..<n]))), drop_bit n x) n"
    by (simp add: Suc)
  also have "\<dots> = (p XOR of_bool (odd (length (filter (bit x) [0..<n]))) XOR of_bool (bit x n),
                     drop_bit (Suc n) x)"
    by (simp add: parity_step_eq bit_drop_bit_eq drop_bit_drop_bit xor.assoc)
  also have "p XOR of_bool (odd (length (filter (bit x) [0..<n]))) XOR of_bool (bit x n)
             = p XOR of_bool (odd (length (filter (bit x) [0..<Suc n])))"
    by (cases "bit x n"; cases "odd (length (filter (bit x) [0..<n]))")
       (simp_all add: xor.assoc)
  finally show ?case .
qed

lemma parity_popcount: "parity x = of_bool (odd (popcount x))"
  by (simp add: parity_def popcount_def parity_loop)

lemma popcount_shift:
  fixes full :: u32
  assumes "\<not> bit full 31"
  shows "popcount (push_bit 1 full OR of_bool b) = popcount full + of_bool b"
proof -
  define y where "y = push_bit 1 full OR (of_bool b :: u32)"
  have y0: "bit y 0 = b"
    unfolding y_def by (simp only: bit_or_iff bit_push_bit_iff bit_of_bool_iff) simp
  have yS: "bit y (Suc i) = bit full i" if "i < 31" for i
    unfolding y_def using that by (simp only: bit_or_iff bit_push_bit_iff bit_of_bool_iff) simp
  have "[0..<32] = 0 # map Suc [0..<31]"
    by (simp add: upt_conv_Cons map_Suc_upt)
  then have "popcount y = of_bool b + length (filter (\<lambda>i. bit y (Suc i)) [0..<31])"
    by (simp add: popcount_def y0 filter_map comp_def)
  also have "filter (\<lambda>i. bit y (Suc i)) [0..<31] = filter (bit full) [0..<31]"
    by (rule filter_cong) (simp_all add: yS)
  also have "length (filter (bit full) [0..<31]) = popcount full"
  proof -
    have "[0..<32] = [0..<31] @ [31]"
      using upt_Suc_append [of 0 31] by simp
    then show ?thesis using assms by (simp add: popcount_def)
  qed
  finally show ?thesis by (simp add: y_def)
qed

lemma parity_le_1: "parity x = 0 \<or> parity x = 1"
  by (simp add: parity_popcount)

subsection \<open>The remainder\<close>

lemma crc_bits: "10 \<le> i \<Longrightarrow> \<not> bit (crc m) i"
proof -
  assume "10 \<le> i"
  have "unat (0x3FF :: u32) < 2 ^ 10" by simp
  then have "\<not> bit (0x3FF :: u32) i" using \<open>10 \<le> i\<close> by (rule bit_above_bound)
  then show ?thesis by (simp add: crc_def bit_and_iff)
qed

lemma crc_le: "unat (crc m) \<le> 1023"
proof -
  have "unat (crc m) < 2 ^ 10" by (rule bound_of_bits) (rule crc_bits)
  then show ?thesis by simp
qed

lemma crc_eq_divide:
  assumes "unat m < 2 ^ 21"
  shows "crc m = crc_divide (push_bit 10 m)"
proof (rule bit_word_eqI)
  fix n assume "n < LENGTH(32)"
  have hi: "\<not> bit (push_bit 10 m) i" if "31 \<le> i" for i
    using that bit_above_bound [OF assms, of "i - 10"] by (simp add: bit_push_bit_iff)
  have "\<not> bit (crc_divide (push_bit 10 m)) n" if "10 \<le> n"
    using hi that by (rule crc_divide_clears)
  moreover have "bit (0x3FF :: u32) n" if "n < 10"
  proof -
    have "bit (mask 10 :: u32) n" using that by (simp add: bit_mask_iff)
    then show ?thesis by (simp add: mask_eq_exp_minus_1)
  qed
  ultimately show "bit (crc m) n = bit (crc_divide (push_bit 10 m)) n"
    by (cases "n < 10") (auto simp: crc_def CRC_BITS_def bit_and_iff)
qed

lemma crc_remainder_zero:
  assumes "unat m < 2 ^ 21"
  shows "crc_divide (push_bit 10 m OR crc m) = 0"
proof -
  have "push_bit 10 m OR crc m = push_bit 10 m XOR crc m"
    by (rule bit_word_eqI) (use crc_bits in \<open>auto simp: bit_or_iff bit_xor_iff bit_push_bit_iff\<close>)
  then have "crc_divide (push_bit 10 m OR crc m) = crc_divide (push_bit 10 m) XOR crc_divide (crc m)"
    by (simp add: crc_divide_xor)
  also have "crc_divide (crc m) = crc m"
    by (rule crc_divide_small) (rule crc_bits)
  also have "crc_divide (push_bit 10 m) = crc m"
    using assms by (simp add: crc_eq_divide)
  finally show ?thesis by simp
qed

subsection \<open>Polynomials over GF(2) and the remainder as a polynomial remainder\<close>

lemma gf2_mult_0: "gf2_mult 0 g = 0"
  by (subst gf2_mult.simps) simp

lemma gf2_mult_unfold:
  "gf2_mult q g = (if odd q then g else 0) XOR 2 * gf2_mult (q div 2) g"
  by (subst gf2_mult.simps) (simp add: gf2_mult_0)

lemma gf2_mult_xor: "gf2_mult (a XOR b) g = gf2_mult a g XOR gf2_mult b g"
proof (induction a arbitrary: b rule: less_induct)
  case (less a)
  show ?case
  proof (cases "a = 0")
    case True
    then show ?thesis by (simp add: gf2_mult_0)
  next
    case False
    then have "a div 2 < a" by simp
    then have ih: "gf2_mult (a div 2 XOR b div 2) g
                   = gf2_mult (a div 2) g XOR gf2_mult (b div 2) g"
      by (rule less.IH)
    have d: "(a XOR b) div 2 = a div 2 XOR b div 2"
      using drop_bit_xor [of 1 a b] by (simp add: drop_bit_eq_div)
    have m: "2 * (x XOR y) = 2 * x XOR 2 * y" for x y :: nat
      using push_bit_xor [of 1 x y] by (simp add: push_bit_eq_mult mult.commute)
    have c: "g XOR (g XOR x) = x" for x :: nat
      by (simp add: xor.assoc [symmetric])
    show ?thesis
      by (subst gf2_mult_unfold, subst (2) gf2_mult_unfold, subst (3) gf2_mult_unfold)
        (simp add: d ih m c even_xor_iff ac_simps)
  qed
qed

lemma gf2_mult_power: "gf2_mult (2 ^ k) g = g * 2 ^ k"
proof (induction k)
  case 0
  show ?case by (subst gf2_mult_unfold) (simp add: gf2_mult_0)
next
  case (Suc k)
  show ?case by (subst gf2_mult_unfold) (simp add: Suc)
qed

lemma xor_keeps_high:
  fixes a b :: nat
  assumes "a < 2 ^ k" and "2 ^ k \<le> b"
  shows "2 ^ k \<le> a XOR b"
proof -
  have "drop_bit k (a XOR b) = drop_bit k a XOR drop_bit k b" by (rule drop_bit_xor)
  also have "drop_bit k a = 0" using assms(1) by (simp add: drop_bit_eq_div)
  finally have "drop_bit k (a XOR b) = drop_bit k b" by simp
  moreover have "drop_bit k b \<noteq> 0" using assms(2) by (simp add: drop_bit_eq_div div_eq_0_iff)
  ultimately have "(a XOR b) div 2 ^ k \<noteq> 0" by (simp add: drop_bit_eq_div)
  then show ?thesis by (simp add: div_eq_0_iff)
qed

lemma gf2_mult_degree:
  assumes "2 ^ k \<le> g" and "g < 2 ^ Suc k" and "q \<noteq> 0"
  shows "2 ^ k \<le> gf2_mult q g"
  using assms(3)
proof (induction q rule: less_induct)
  case (less q)
  show ?case
  proof (cases "q div 2 = 0")
    case True
    then have "q = 1" using less.prems by (cases q) auto
    then show ?thesis using assms(1) by (subst gf2_mult_unfold) (simp add: gf2_mult_0)
  next
    case False
    moreover have "q div 2 < q" using less.prems by simp
    ultimately have "2 ^ k \<le> gf2_mult (q div 2) g" by (rule less.IH [rotated])
    then have "2 ^ Suc k \<le> 2 * gf2_mult (q div 2) g" by simp
    moreover have "(if odd q then g else 0) < 2 ^ Suc k" using assms(2) by simp
    ultimately have "2 ^ Suc k \<le> (if odd q then g else 0) XOR 2 * gf2_mult (q div 2) g"
      by (rule xor_keeps_high [rotated])
    moreover have "(2::nat) ^ k \<le> 2 ^ Suc k" by simp
    ultimately show ?thesis by (subst gf2_mult_unfold) (rule order_trans [rotated])
  qed
qed

lemma xor_less_pow:
  fixes a b :: nat
  assumes "a < 2 ^ k" and "b < 2 ^ k"
  shows "a XOR b < 2 ^ k"
proof -
  have "take_bit k (a XOR b) = take_bit k a XOR take_bit k b" by (rule take_bit_xor)
  also have "\<dots> = a XOR b" using assms by (simp add: take_bit_nat_eq_self)
  finally have "take_bit k (a XOR b) = a XOR b" .
  then show ?thesis by (simp only: take_bit_nat_eq_self_iff)
qed

lemma xor_eq_self_iff:
  fixes a b :: nat
  shows "a XOR b = 0 \<longleftrightarrow> a = b"
proof
  assume "a XOR b = 0"
  then have "(a XOR b) XOR b = b" by simp
  then show "a = b" by (simp add: xor.assoc)
qed simp

lemma shift_plus_xor:
  fixes x r :: nat
  assumes "r < 2 ^ k"
  shows "x * 2 ^ k + r = x * 2 ^ k XOR r"
proof -
  have "(x * 2 ^ k) AND r = 0"
  proof (rule bit_eqI)
    fix n
    have "\<not> bit r n" if "k \<le> n"
    proof -
      have "r < 2 ^ n" using assms that
        by (meson less_le_trans one_le_numeral power_increasing)
      then show ?thesis by (simp add: bit_iff_odd)
    qed
    then show "bit (x * 2 ^ k AND r) n = bit (0::nat) n"
      using bit_push_bit_iff [of k x n] by (auto simp: bit_and_iff push_bit_eq_mult)
  qed
  then show ?thesis by (simp add: disjunctive_add_eq_or disjunctive_xor_eq_or)
qed


lemma shift_plus_or:
  fixes x r :: nat
  assumes "r < 2 ^ k"
  shows "x * 2 ^ k OR r = x * 2 ^ k + r"
proof -
  have "x * 2 ^ k XOR r = x * 2 ^ k OR r"
  proof (rule bit_eqI)
    fix n
    have "\<not> (bit (x * 2 ^ k) n \<and> bit r n)"
    proof (cases "k \<le> n")
      case True
      then have "r < 2 ^ n" using assms
        by (meson less_le_trans one_le_numeral power_increasing)
      then show ?thesis by (simp add: bit_iff_odd)
    next
      case False
      then show ?thesis using bit_push_bit_iff [of k x n] by (simp add: push_bit_eq_mult)
    qed
    then show "bit (x * 2 ^ k XOR r) n = bit (x * 2 ^ k OR r) n"
      by (auto simp: bit_xor_iff bit_or_iff)
  qed
  then show ?thesis by (simp only: shift_plus_xor [OF assms])
qed

lemma unat_denominator:
  assumes "n \<le> 20"
  shows "unat (drop_bit n (push_bit 20 CRC_GENERATOR)) = unat CRC_GENERATOR * 2 ^ (20 - n)"
proof -
  define k where "k = 20 - n"
  have kn: "20 = k + n" using assms by (simp add: k_def)
  have "unat (push_bit 20 CRC_GENERATOR) = unat CRC_GENERATOR * 2 ^ 20"
    by (simp add: CRC_GENERATOR_def)
  also have "\<dots> = unat CRC_GENERATOR * 2 ^ k * 2 ^ n"
    by (simp only: kn power_add mult.assoc)
  finally have d: "unat (push_bit 20 CRC_GENERATOR) div 2 ^ n = unat CRC_GENERATOR * 2 ^ k"
    by simp
  have "unat (drop_bit n (push_bit 20 CRC_GENERATOR))
        = drop_bit n (unat (push_bit 20 CRC_GENERATOR))"
    by (rule unat_drop_bit_eq)
  also have "\<dots> = unat (push_bit 20 CRC_GENERATOR) div 2 ^ n"
    by (rule drop_bit_eq_div)
  finally show ?thesis unfolding d k_def .
qed

lemma crc_loop_multiple:
  assumes "n \<le> 21"
  shows "\<exists>q. unat (fst (foldl crc_step (m, push_bit 20 CRC_GENERATOR) [0..<n]))
              = unat m XOR gf2_mult q (unat CRC_GENERATOR)"
  using assms
proof (induction n)
  case 0
  have "unat m = unat m XOR gf2_mult 0 (unat CRC_GENERATOR)" by (simp add: gf2_mult_0)
  then show ?case by auto
next
  case (Suc n)
  let ?m' = "fst (foldl crc_step (m, push_bit 20 CRC_GENERATOR) [0..<n])"
  from Suc obtain q where q: "unat ?m' = unat m XOR gf2_mult q (unat CRC_GENERATOR)"
    by auto
  show ?case
  proof (cases "bit ?m' (30 - n)")
    case False
    then show ?thesis unfolding crc_loop_Suc Let_def using q by auto
  next
    case True
    have "n \<le> 20" using Suc.prems by simp
    then have "unat (?m' XOR drop_bit n (push_bit 20 CRC_GENERATOR))
               = (unat m XOR gf2_mult q (unat CRC_GENERATOR))
                 XOR gf2_mult (2 ^ (20 - n)) (unat CRC_GENERATOR)"
      by (simp only: unsigned_xor_eq q unat_denominator gf2_mult_power)
    also have "\<dots> = unat m XOR gf2_mult (q XOR 2 ^ (20 - n)) (unat CRC_GENERATOR)"
      by (simp only: gf2_mult_xor xor.assoc)
    finally show ?thesis unfolding crc_loop_Suc Let_def using True by auto
  qed
qed

lemma unat_shifted_payload:
  fixes m :: u32
  assumes "unat m < 2 ^ 21"
  shows "unat (push_bit 10 m) = unat m * 2 ^ 10"
proof -
  have "unat m * 2 ^ 10 < 2 ^ 21 * 2 ^ 10" using assms by simp
  then have "unat m * 2 ^ 10 < 2 ^ 32" by simp
  then have "unat m * unat (2 ^ 10 :: u32) mod 2 ^ 32 = unat m * 2 ^ 10" by simp
  then show ?thesis
    by (simp add: push_bit_eq_mult unat_word_ariths(2))
qed

lemma crc_multiple:
  assumes "unat m < 2 ^ 21"
  shows "\<exists>q. unat m * 2 ^ 10 + unat (crc m) = gf2_mult q (unat CRC_GENERATOR)"
proof -
  obtain q where "unat (crc_divide (push_bit 10 m))
                  = unat (push_bit 10 m) XOR gf2_mult q (unat CRC_GENERATOR)"
    unfolding crc_divide_def using crc_loop_multiple [of 21 "push_bit 10 m"] by auto
  then have "unat (crc m) = unat m * 2 ^ 10 XOR gf2_mult q (unat CRC_GENERATOR)"
    by (simp only: crc_eq_divide [OF assms] unat_shifted_payload [OF assms])
  then have "unat m * 2 ^ 10 XOR unat (crc m) = gf2_mult q (unat CRC_GENERATOR)"
    by (simp add: xor.assoc [symmetric])
  moreover have "unat (crc m) < 2 ^ 10" using crc_le [of m] by simp
  ultimately have "unat m * 2 ^ 10 + unat (crc m) = gf2_mult q (unat CRC_GENERATOR)"
    by (simp only: shift_plus_xor)
  then show ?thesis ..
qed

lemma crc_unique:
  assumes "unat m < 2 ^ 21" and "r < 2 ^ 10"
    and "unat m * 2 ^ 10 + r = gf2_mult q (unat CRC_GENERATOR)"
  shows "r = unat (crc m)"
proof -
  obtain q' where q': "unat m * 2 ^ 10 + unat (crc m) = gf2_mult q' (unat CRC_GENERATOR)"
    using crc_multiple [OF assms(1)] by auto
  have c: "unat (crc m) < 2 ^ 10" using crc_le [of m] by simp
  have "r XOR unat (crc m) = (unat m * 2 ^ 10 XOR r) XOR (unat m * 2 ^ 10 XOR unat (crc m))"
    by (simp add: ac_simps)
  also have "\<dots> = gf2_mult q (unat CRC_GENERATOR) XOR gf2_mult q' (unat CRC_GENERATOR)"
    using assms(3) q' by (simp only: shift_plus_xor [OF assms(2)] shift_plus_xor [OF c])
  also have "\<dots> = gf2_mult (q XOR q') (unat CRC_GENERATOR)"
    by (simp only: gf2_mult_xor)
  finally have e: "r XOR unat (crc m) = gf2_mult (q XOR q') (unat CRC_GENERATOR)" .
  have "r XOR unat (crc m) < 2 ^ 10" using assms(2) c by (rule xor_less_pow)
  moreover have "2 ^ 10 \<le> gf2_mult (q XOR q') (unat CRC_GENERATOR)" if "q XOR q' \<noteq> 0"
    by (rule gf2_mult_degree [OF _ _ that]) (simp_all add: CRC_GENERATOR_def)
  ultimately have "q XOR q' = 0" using e by auto
  then have "r XOR unat (crc m) = 0" using e by (simp add: gf2_mult_0)
  then show ?thesis by (simp only: xor_eq_self_iff)
qed

lemma unat_codeword_body:
  fixes m r :: u32
  assumes "unat m < 2 ^ 21" and "unat r < 2 ^ 10"
  shows "unat (push_bit 10 m OR r) = unat m * 2 ^ 10 + unat r"
proof -
  have "unat (push_bit 10 m OR r) = unat (push_bit 10 m) OR unat r"
    by (rule unsigned_or_eq)
  also have "\<dots> = unat m * 2 ^ 10 OR unat r"
    by (simp only: unat_shifted_payload [OF assms(1)])
  also have "\<dots> = unat m * 2 ^ 10 + unat r"
    using assms(2) by (rule shift_plus_or)
  finally show ?thesis .
qed

lemma crc_generator_multiple:
  assumes "unat m < 2 ^ 21"
  shows "\<exists>q. unat (push_bit 10 m OR crc m) = gf2_mult q (unat CRC_GENERATOR)"
proof -
  have "unat (crc m) < 2 ^ 10" using crc_le [of m] by simp
  then have "unat (push_bit 10 m OR crc m) = unat m * 2 ^ 10 + unat (crc m)"
    by (rule unat_codeword_body [OF assms])
  then show ?thesis using crc_multiple [OF assms] by simp
qed

lemma crc_only_remainder:
  assumes "unat m < 2 ^ 21" and "unat r \<le> 1023"
    and "unat (push_bit 10 m OR r) = gf2_mult q (unat CRC_GENERATOR)"
  shows "r = crc m"
proof -
  have r: "unat r < 2 ^ 10" using assms(2) by simp
  have "unat m * 2 ^ 10 + unat r = gf2_mult q (unat CRC_GENERATOR)"
    using assms(3) by (simp only: unat_codeword_body [OF assms(1) r])
  with assms(1) r have "unat r = unat (crc m)" by (rule crc_unique)
  then show ?thesis by (rule word_unat_eq_iff [THEN iffD2])
qed

subsection \<open>Fields of a codeword\<close>

lemma parity_of_bool: "parity x = of_bool (parity x = 1)"
  using parity_le_1 [of x] by auto

lemma encodeCodeword_bit:
  "bit (encodeCodeword m) j
   \<longleftrightarrow> (if j = 0 then parity (push_bit 10 m OR crc m) = 1
        else if j \<le> 10 then bit (crc m) (j - 1)
        else j < 32 \<and> bit m (j - 11))"
proof -
  define full where "full = push_bit 10 m OR crc m"
  define p where "p = parity full"
  have cw: "encodeCodeword m = push_bit 1 full OR p"
    unfolding encodeCodeword_def full_def p_def CRC_BITS_def Let_def by (rule refl)
  have p: "bit p j \<longleftrightarrow> j = 0 \<and> p = 1"
    using parity_le_1 [of full] by (auto simp: p_def bit_1_iff)
  have full: "bit full i \<longleftrightarrow> (if i < 10 then bit (crc m) i else i < 32 \<and> bit m (i - 10))" for i
    unfolding full_def using crc_bits [of i m]
    by (auto simp only: bit_or_iff bit_push_bit_iff possible_bit_word split: if_splits) simp_all
  show ?thesis
    unfolding cw bit_or_iff bit_push_bit_iff p full
    by (cases j) (auto simp: p_def full_def)
qed

lemma bit_below_bound:
  fixes w :: u32
  shows "unat w < 2 ^ k \<Longrightarrow> bit w i \<Longrightarrow> i < k"
  using bit_above_bound [of w k i] by (cases "k \<le> i") auto

lemma encodeCodeword_payload:
  assumes "unat m < 2 ^ 21"
  shows "drop_bit 11 (encodeCodeword m) = m"
proof (rule bit_word_eqI)
  fix n assume "n < LENGTH(32)"
  show "bit (drop_bit 11 (encodeCodeword m)) n = bit m n"
    using bit_below_bound [OF assms, of n]
    by (auto simp: bit_drop_bit_eq encodeCodeword_bit)
qed

lemma encodeCodeword_crc_field: "take_bit 10 (drop_bit 1 (encodeCodeword m)) = crc m"
proof (rule bit_word_eqI)
  fix n assume "n < LENGTH(32)"
  show "bit (take_bit 10 (drop_bit 1 (encodeCodeword m))) n = bit (crc m) n"
    using crc_bits [of n m]
    by (auto simp: bit_take_bit_iff bit_drop_bit_eq encodeCodeword_bit)
qed

lemma full_top_clear:
  assumes "unat m < 2 ^ 21"
  shows "\<not> bit (push_bit 10 m OR crc m) 31"
  using bit_above_bound [OF assms, of 21] crc_bits [of 31 m]
  by (simp add: bit_or_iff bit_push_bit_iff)

lemma encodeCodeword_upper:
  assumes "unat m < 2 ^ 21"
  shows "drop_bit 1 (encodeCodeword m) = push_bit 10 m OR crc m"
proof (rule bit_word_eqI)
  fix n assume "n < LENGTH(32)"
  show "bit (drop_bit 1 (encodeCodeword m)) n = bit (push_bit 10 m OR crc m) n"
    using bit_below_bound [OF assms, of "n - 10"] crc_bits [of n m] \<open>n < LENGTH(32)\<close>
    by (auto simp: bit_drop_bit_eq encodeCodeword_bit bit_or_iff bit_push_bit_iff)
qed

lemma encodeCodeword_parity_bit:
  assumes "unat m < 2 ^ 21"
  shows "encodeCodeword m AND 1 = parity (drop_bit 1 (encodeCodeword m))"
proof -
  have "encodeCodeword m AND 1 = of_bool (bit (encodeCodeword m) 0)"
    using and1_of_bool [of 0 "encodeCodeword m"] by simp
  also have "\<dots> = parity (push_bit 10 m OR crc m)"
    using parity_of_bool [of "push_bit 10 m OR crc m"] by (simp add: encodeCodeword_bit)
  finally show ?thesis by (simp only: encodeCodeword_upper [OF assms])
qed

lemma encodeCodeword_even:
  assumes "unat m < 2 ^ 21"
  shows "even (popcount (encodeCodeword m))"
proof -
  define full where "full = push_bit 10 m OR crc m"
  have cw: "encodeCodeword m = push_bit 1 full OR of_bool (odd (popcount full))"
    unfolding encodeCodeword_def full_def CRC_BITS_def Let_def parity_popcount by (rule refl)
  have "\<not> bit full 31" unfolding full_def using assms by (rule full_top_clear)
  then have "popcount (encodeCodeword m) = popcount full + of_bool (odd (popcount full))"
    unfolding cw by (rule popcount_shift)
  then show ?thesis by simp
qed

lemma encodeCodeword_parity_zero:
  assumes "unat m < 2 ^ 21"
  shows "parity (encodeCodeword m) = 0"
  using encodeCodeword_even [OF assms] by (simp add: parity_popcount)

text \<open>
  Claim C2. For every 21-bit payload \<open>m\<close>: \<open>crc m\<close> is at most 1023. The value
  \<open>(m << 10) | crc m\<close>, read as a polynomial over GF(2), is a multiple of the generator
  polynomial \<open>0x769\<close>, and \<open>crc m\<close> is the only \<open>r\<close> up to 1023 for which \<open>(m << 10) | r\<close>
  is one: it is the remainder of the division of \<open>m * x ^ 10\<close> by the generator.
  Running the division loop of \<open>crc\<close> on \<open>(m << 10) | crc m\<close> leaves nothing (the whole
  register is zero, so in particular its ten remainder bits are). \<open>encodeCodeword m\<close>
  has \<open>m\<close> in bits 31 to 11, \<open>crc m\<close> in bits 10 to 1, and in bit 0 the parity of bits 31
  to 1, so that the codeword has an even number of set bits and \<open>parity\<close> of it is 0.
\<close>

theorem codeword_fields:
  assumes "unat m < 2 ^ 21"
  shows "unat (crc m) \<le> 1023
       \<and> (\<exists>q. unat (push_bit CRC_BITS m OR crc m) = gf2_mult q (unat CRC_GENERATOR))
       \<and> (\<forall>r q. unat r \<le> 1023
                \<and> unat (push_bit CRC_BITS m OR r) = gf2_mult q (unat CRC_GENERATOR)
              \<longrightarrow> r = crc m)
       \<and> crc_divide (push_bit CRC_BITS m OR crc m) = 0
       \<and> crc_divide (push_bit CRC_BITS m OR crc m) AND 0x3FF = 0
       \<and> drop_bit 11 (encodeCodeword m) = m
       \<and> take_bit 10 (drop_bit 1 (encodeCodeword m)) = crc m
       \<and> encodeCodeword m AND 1 = parity (drop_bit 1 (encodeCodeword m))
       \<and> parity (encodeCodeword m) = 0
       \<and> even (popcount (encodeCodeword m))"
proof -
  have z: "crc_divide (push_bit CRC_BITS m OR crc m) = 0"
    unfolding CRC_BITS_def using assms by (rule crc_remainder_zero)
  have e: "\<exists>q. unat (push_bit CRC_BITS m OR crc m) = gf2_mult q (unat CRC_GENERATOR)"
    unfolding CRC_BITS_def using assms by (rule crc_generator_multiple)
  have u: "\<forall>r q. unat r \<le> 1023
             \<and> unat (push_bit CRC_BITS m OR r) = gf2_mult q (unat CRC_GENERATOR)
           \<longrightarrow> r = crc m"
    unfolding CRC_BITS_def using crc_only_remainder [OF assms] by blast
  have f: "unat (crc m) \<le> 1023
       \<and> drop_bit 11 (encodeCodeword m) = m
       \<and> take_bit 10 (drop_bit 1 (encodeCodeword m)) = crc m
       \<and> encodeCodeword m AND 1 = parity (drop_bit 1 (encodeCodeword m))
       \<and> parity (encodeCodeword m) = 0
       \<and> even (popcount (encodeCodeword m))"
    using crc_le [of m] encodeCodeword_payload [OF assms] encodeCodeword_crc_field [of m]
      encodeCodeword_parity_bit [OF assms] encodeCodeword_parity_zero [OF assms]
      encodeCodeword_even [OF assms]
    by simp
  show ?thesis using z e u f by simp
qed

theorem codeword_fields_witness:
  "unat (1 :: u32) < 2 ^ 21
   \<and> crc 1 = 873
   \<and> unat (crc 1) \<le> 1023
   \<and> (\<exists>q. unat (push_bit CRC_BITS 1 OR crc 1 :: u32) = gf2_mult q (unat CRC_GENERATOR))
   \<and> push_bit CRC_BITS 1 OR crc 1 = CRC_GENERATOR
   \<and> unat CRC_GENERATOR = gf2_mult 1 (unat CRC_GENERATOR)
   \<and> crc_divide (push_bit CRC_BITS 1 OR crc 1) = 0
   \<and> crc_divide (push_bit CRC_BITS 1 OR crc 1) AND 0x3FF = 0
   \<and> drop_bit 11 (encodeCodeword 1) = 1
   \<and> take_bit 10 (drop_bit 1 (encodeCodeword 1)) = crc 1
   \<and> encodeCodeword 1 AND 1 = parity (drop_bit 1 (encodeCodeword 1))
   \<and> parity (encodeCodeword 1) = 0
   \<and> even (popcount (encodeCodeword 1))"
proof -
  have h: "unat (1 :: u32) < 2 ^ 21" by simp
  note t = codeword_fields [OF h]
  have t1: "unat (crc 1) \<le> 1023" by (rule t [THEN conjunct1])
  have t2: "\<exists>q. unat (push_bit CRC_BITS 1 OR crc 1 :: u32) = gf2_mult q (unat CRC_GENERATOR)"
    by (rule t [THEN conjunct2, THEN conjunct1])
  note t3 = t [THEN conjunct2, THEN conjunct2, THEN conjunct1, rule_format, of 873 1]
  note t4 = t [THEN conjunct2, THEN conjunct2, THEN conjunct2]
  have g: "unat CRC_GENERATOR = gf2_mult 1 (unat CRC_GENERATOR)"
    using gf2_mult_power [of 0 "unat CRC_GENERATOR"] by simp
  have b: "unat (873 :: u32) \<le> 1023" by simp
  have v: "push_bit CRC_BITS 1 OR (873 :: u32) = CRC_GENERATOR"
    by (simp add: CRC_BITS_def CRC_GENERATOR_def)
  have "unat (push_bit CRC_BITS 1 OR 873 :: u32) = gf2_mult 1 (unat CRC_GENERATOR)"
    unfolding v by (rule g)
  with b have c: "crc 1 = 873" by (intro t3 [symmetric] conjI)
  have p: "push_bit CRC_BITS 1 OR crc 1 = CRC_GENERATOR"
    unfolding c by (rule v)
  show ?thesis
    using h c t1 t2 p g t4 by - (elim conjE, intro conjI; assumption)
qed

section \<open>The text packer and the transmission\<close>

subsection \<open>One word, one bit\<close>

lemma put_codeword_simps:
  "currentWord (put_codeword w s) = currentWord s"
  "currentNumBits (put_codeword w s) = currentNumBits s"
  "wordPosition (put_codeword w s) = (if wordPosition s = 15 then 0 else wordPosition s + 1)"
  "numWordsWritten (put_codeword w s)
     = numWordsWritten s + (if wordPosition s = 15 then 2 else 1)"
  "out (put_codeword w s)
     = out s @ encodeCodeword (w OR FLAG_MESSAGE) # (if wordPosition s = 15 then [SYNC] else [])"
  by (simp_all add: put_codeword_def Let_def BATCH_SIZE_def)

lemma ucast_bit_and1:
  "i < 8 \<Longrightarrow> drop_bit i (ucast (c :: u8) :: u32) AND 1 = of_bool (bit c i)"
  by (simp add: and1_of_bool bit_ucast_iff)

lemma encode_bit_simps:
  "currentNumBits (encode_bit c s i) = (if currentNumBits s = 19 then 0 else currentNumBits s + 1)"
  "wordPosition (encode_bit c s i)
     = (if currentNumBits s = 19 then (if wordPosition s = 15 then 0 else wordPosition s + 1)
        else wordPosition s)"
  "numWordsWritten (encode_bit c s i)
     = numWordsWritten s
       + (if currentNumBits s = 19 then (if wordPosition s = 15 then 2 else 1) else 0)"
  by (simp_all add: encode_bit_def Let_def TEXT_BITS_PER_WORD_def put_codeword_simps)

lemma encode_bit_out:
  assumes "i < 8"
  shows "out (encode_bit c s i)
     = out s @ (if currentNumBits s = 19
                then encodeCodeword (shift_in (currentWord s) (bit c i) OR FLAG_MESSAGE)
                     # (if wordPosition s = 15 then [SYNC] else [])
                else [])"
    and "currentWord (encode_bit c s i)
     = (if currentNumBits s = 19 then 0 else shift_in (currentWord s) (bit c i))"
  unfolding encode_bit_def Let_def TEXT_BITS_PER_WORD_def ucast_bit_and1 [OF assms] shift_in_def
  by (simp_all add: put_codeword_simps)

subsection \<open>Arithmetic of batches\<close>

lemma ceil_div_20: "((T::nat) + 19) div 20 = (if T mod 20 = 0 then T div 20 else Suc (T div 20))"
proof -
  define d where "d = T div 20"
  define r where "r = T mod 20"
  have T: "T = 20 * d + r" and r: "r < 20" by (simp_all add: d_def r_def)
  show ?thesis
  proof (cases "r = 0")
    case True
    have "(T + 19) div 20 = d"
      by (rule div_nat_eqI) (simp_all add: T True)
    then show ?thesis using True by (simp add: d_def r_def)
  next
    case False
    have "(T + 19) div 20 = Suc d"
      by (rule div_nat_eqI) (use False r in \<open>simp_all add: T\<close>)
    then show ?thesis using False by (simp add: d_def r_def)
  qed
qed

lemma mod_17_full: "r = 15 \<Longrightarrow> (16 * q + r + 2 + q) mod 17 = (0::nat)"
proof -
  assume "r = 15"
  then have "16 * q + r + 2 + q = 17 * (q + 1)" by simp
  then show ?thesis by (simp only: mod_mult_self1_is_0)
qed

lemma mod_17_part: "r < 15 \<Longrightarrow> (16 * q + r + 2 + q) mod 17 = r + (2::nat)"
proof -
  assume "r < 15"
  have "16 * q + r + 2 + q = (r + 2) + 17 * q" by simp
  then have "(16 * q + r + 2 + q) mod 17 = (r + 2) mod 17" by (simp only: mod_mult_self2)
  then show ?thesis using \<open>r < 15\<close> by simp
qed

lemma mod_16_full: "r = 15 \<Longrightarrow> (16 * q + r + 1) mod 16 = (0::nat)"
proof -
  assume "r = 15"
  then have "16 * q + r + 1 = 16 * (q + 1)" by simp
  then show ?thesis by (simp only: mod_mult_self1_is_0)
qed

lemma mod_16_part: "r < 15 \<Longrightarrow> (16 * q + r + 1) mod 16 = r + (1::nat)"
proof -
  assume "r < 15"
  have "16 * q + r + 1 = (r + 1) + 16 * q" by simp
  then have "(16 * q + r + 1) mod 16 = (r + 1) mod 16" by (simp only: mod_mult_self2)
  then show ?thesis using \<open>r < 15\<close> by simp
qed

lemma length_arith:
  fixes P :: nat
  shows "18 + ((P + 2 + P div 16) + (17 - (P + 2 + P div 16) mod 17))
       = (P + 1 + (16 - (P + 1) mod 16)) + (P + 1 + (16 - (P + 1) mod 16)) div 16 + 18"
proof -
  define q where "q = P div 16"
  define r where "r = P mod 16"
  have P: "P = 16 * q + r" and r: "r < 16" by (simp_all add: q_def r_def)
  have d: "P div 16 = q" by (simp add: q_def)
  show ?thesis
  proof (cases "r = 15")
    case True
    have "(16 * q + r + 1 + 16) div 16 = q + 2"
    proof -
      have "16 * q + r + 1 + 16 = 16 * (q + 2)" using True by simp
      then show ?thesis by simp
    qed
    then show ?thesis
      unfolding d unfolding P mod_17_full [OF True] mod_16_full [OF True] using True by simp
  next
    case False
    with r have r': "r < 15" by simp
    have "(16 * q + r + 1 + (16 - (r + 1))) div 16 = q + 1"
    proof -
      have "16 * q + r + 1 + (16 - (r + 1)) = 16 * (q + 1)" using r' by simp
      then show ?thesis by simp
    qed
    then show ?thesis
      unfolding d unfolding P mod_17_part [OF r'] mod_16_part [OF r'] using r' by simp
  qed
qed

subsection \<open>The counting invariant\<close>

lemma Suc_div_mod_20:
  "Suc k mod 20 = (if k mod 20 = 19 then 0 else Suc (k mod 20))"
  "Suc k div 20 = (if k mod 20 = 19 then Suc (k div 20) else k div 20)"
  by (simp_all add: mod_Suc div_Suc)

lemma Suc_div_mod_16:
  "Suc x mod 16 = (if x mod 16 = 15 then 0 else Suc (x mod 16))"
  "Suc x div 16 = (if x mod 16 = 15 then Suc (x div 16) else x div 16)"
  by (simp_all add: mod_Suc div_Suc)

lemma counted_step:
  assumes "counted off k s" and "i < 8"
  shows "counted off (Suc k) (encode_bit c s i)"
  using assms(1) unfolding counted_def encode_bit_simps Suc_div_mod_20 encode_bit_out [OF assms(2)]
  by (simp add: Suc_div_mod_16)

lemma counted_bits:
  assumes "counted off k s" and "n \<le> 8"
  shows "counted off (k + n) (foldl (encode_bit c) s [0..<n])"
  using assms(2)
proof (induction n)
  case 0
  show ?case using assms(1) by simp
next
  case (Suc n)
  then have "counted off (k + n) (foldl (encode_bit c) s [0..<n])" by simp
  then have "counted off (Suc (k + n)) (encode_bit c (foldl (encode_bit c) s [0..<n]) n)"
    by (rule counted_step) (use Suc.prems in simp)
  then show ?case by simp
qed

lemma counted_chars:
  assumes "counted off k s"
  shows "counted off (k + 7 * strlen str) (encode_chars str s)"
  using assms
proof (induction str arbitrary: k s)
  case Nil
  then show ?case by (simp add: strlen_def c_string_def)
next
  case (Cons c str)
  show ?case
  proof (cases "c = 0")
    case True
    with Cons.prems show ?thesis by (simp add: strlen_def c_string_def)
  next
    case False
    have "counted off (k + 7) (foldl (encode_bit c) s [0..<7])"
      using Cons.prems by (rule counted_bits) simp
    then have "counted off (k + 7 + 7 * strlen str)
                 (encode_chars str (foldl (encode_bit c) s [0..<7]))"
      by (rule Cons.IH)
    with False show ?thesis by (simp add: strlen_def c_string_def TEXT_BITS_PER_CHAR_def add.assoc)
  qed
qed

lemma encodeASCII_count:
  assumes "off < 16"
  shows "fst (encodeASCII off str)
           = (7 * strlen str + 19) div 20 + (off + (7 * strlen str + 19) div 20) div 16"
    and "length (snd (encodeASCII off str)) = fst (encodeASCII off str)"
proof -
  define s0 where "s0 = \<lparr>currentWord = 0, currentNumBits = 0, wordPosition = off,
                 numWordsWritten = 0, out = []\<rparr>"
  define s1 where "s1 = encode_chars str s0"
  define T where "T = 7 * strlen str"
  have "counted off 0 s0" using assms by (simp add: counted_def s0_def)
  then have "counted off (0 + 7 * strlen str) s1" unfolding s1_def by (rule counted_chars)
  then have c: "counted off T s1" by (simp add: T_def)
  have e: "encodeASCII off str
           = (if currentNumBits s1 > 0
              then (let s2 = put_codeword (push_bit (20 - currentNumBits s1) (currentWord s1)) s1
                    in (numWordsWritten s2, out s2))
              else (numWordsWritten s1, out s1))"
    by (simp add: encodeASCII_def s0_def s1_def Let_def)
  note K = ceil_div_20 [of T]
  show "fst (encodeASCII off str)
           = (7 * strlen str + 19) div 20 + (off + (7 * strlen str + 19) div 20) div 16"
    using c unfolding e T_def [symmetric] K counted_def
    by (simp add: Let_def put_codeword_simps Suc_div_mod_16)
  show "length (snd (encodeASCII off str)) = fst (encodeASCII off str)"
    using c unfolding e counted_def
    by (simp add: Let_def put_codeword_simps)
qed

subsection \<open>Length of a transmission\<close>

lemma unat_addressOffset: "unat (addressOffset a) = 2 * (unat a mod 8)"
proof -
  have "a AND 7 = take_bit 3 a"
    by (simp add: take_bit_eq_mask mask_eq_exp_minus_1)
  then have "unat (a AND 7) = unat a mod 8"
    by (simp only: unsigned_take_bit_eq) (simp add: take_bit_eq_mod)
  moreover have "unat a mod 8 < 8" by simp
  ultimately show ?thesis
    by (simp add: addressOffset_def FRAME_SIZE_def unat_word_ariths)
qed

lemma addressOffset_le: "unat (addressOffset a) \<le> 14"
proof -
  have "unat a mod 8 < 8" by simp
  then show ?thesis unfolding unat_addressOffset by linarith
qed

lemma length_transmission_body:
  "length (transmission_body a msg)
   = (let P = unat (addressOffset a) + 1 + (7 * strlen msg + 19) div 20
      in P + 2 + P div 16)"
proof -
  have "unat (addressOffset a) + 1 < 16" using addressOffset_le [of a] by simp
  then show ?thesis
    by (simp add: transmission_body_def Let_def encodeASCII_count add.assoc)
qed

lemma length_encodeTransmission_words:
  "length (encodeTransmission a msg)
   = (let P = unat (addressOffset a) + 1 + (7 * strlen msg + 19) div 20
      in (P + 1 + (16 - (P + 1) mod 16)) + (P + 1 + (16 - (P + 1) mod 16)) div 16 + 18)"
proof -
  define P where "P = unat (addressOffset a) + 1 + (7 * strlen msg + 19) div 20"
  define w where "w = P + 2 + P div 16"
  have b: "length (transmission_body a msg) = w"
    by (simp add: length_transmission_body Let_def P_def w_def)
  have "length (encodeTransmission a msg) = 18 + (w + (17 - w mod 17))"
    by (simp add: encodeTransmission_def Let_def b PREAMBLE_LENGTH_def BATCH_SIZE_def)
  also have "\<dots> = (P + 1 + (16 - (P + 1) mod 16)) + (P + 1 + (16 - (P + 1) mod 16)) div 16 + 18"
    unfolding w_def by (rule length_arith)
  finally show ?thesis unfolding Let_def P_def .
qed

subsection \<open>The length calculator where its arithmetic does not overflow\<close>

lemma size_wrap_small:
  assumes "32 \<le> sz" and "x < 2 ^ 32"
  shows "size_wrap sz x = x"
proof -
  have "(2::nat) ^ 32 \<le> 2 ^ sz" using assms(1) by (rule power_increasing) simp
  then have "x < 2 ^ sz" using assms(2) by (rule less_le_trans [rotated])
  then show ?thesis by (simp add: size_wrap_def)
qed

lemma int_wrap_in_range:
  assumes "- (2 ^ 31) \<le> x" and "x < 2 ^ 31"
  shows "int_wrap x = x"
proof -
  have "0 \<le> x + 2 ^ 31" and "x + 2 ^ 31 < 2 ^ 32" using assms by simp_all
  then have "(x + 2 ^ 31) mod 2 ^ 32 = x + 2 ^ 31" by (rule mod_pos_pos_trivial)
  then show ?thesis by (simp add: int_wrap_def)
qed

lemma int_div_nonneg:
  assumes "0 \<le> a" and "0 < b"
  shows "int_div a b = a div b"
  using assms by (simp add: int_div_def)

lemma int_to_size_small:
  assumes "32 \<le> sz" and "k < 2 ^ 32"
  shows "int_to_size sz (int k) = k"
proof -
  have "int k mod 2 ^ sz = int (k mod 2 ^ sz)" by (simp add: zmod_int)
  then have "int_to_size sz (int k) = size_wrap sz k"
    by (simp add: int_to_size_def size_wrap_def)
  then show ?thesis using assms by (simp add: size_wrap_small)
qed

lemma text_words_in_int:
  assumes "7 * n + 19 < 2 ^ 31"
  shows "int_div
           (int_wrap (int_wrap (int n * int TEXT_BITS_PER_CHAR) + (int TEXT_BITS_PER_WORD - 1)))
           (int TEXT_BITS_PER_WORD)
         = int ((7 * n + 19) div 20)"
proof -
  have "int (7 * n + 19) < int (2 ^ 31)" using assms by (simp only: of_nat_less_iff)
  then have a: "int n * 7 < 2 ^ 31" and b: "int n * 7 + 19 < 2 ^ 31" by simp_all
  have "int_wrap (int n * 7) = int n * 7" by (rule int_wrap_in_range) (use a in simp_all)
  moreover have "int_wrap (int n * 7 + 19) = int n * 7 + 19"
    by (rule int_wrap_in_range) (use b in simp_all)
  moreover have "int_div (int n * 7 + 19) 20 = (int n * 7 + 19) div 20"
    by (rule int_div_nonneg) simp_all
  moreover have "(int n * 7 + 19) div 20 = int ((7 * n + 19) div 20)"
    by (simp add: zdiv_int mult.commute)
  ultimately show ?thesis
    by (simp add: TEXT_BITS_PER_CHAR_def TEXT_BITS_PER_WORD_def)
qed

lemma textMessageLength_eq:
  assumes "32 \<le> sz" and "7 * n + 19 < 2 ^ 31"
  shows "textMessageLength sz a (int n)
   = (let P = unat (addressOffset a) + 1 + (7 * n + 19) div 20
      in (P + 1 + (16 - (P + 1) mod 16)) + (P + 1 + (16 - (P + 1) mod 16)) div 16 + 18)"
proof -
  define off where "off = unat (addressOffset a)"
  define K where "K = (7 * n + 19) div 20"
  define P where "P = off + 1 + K"
  define w5 where "w5 = P + 1 + (16 - (P + 1) mod 16)"
  have off: "off \<le> 14" unfolding off_def by (rule addressOffset_le)
  have "K \<le> (2 ^ 31) div 20" unfolding K_def using assms(2) by (intro div_le_mono) simp
  then have K: "K \<le> 107374182" by simp
  have w5: "w5 \<le> P + 17" unfolding w5_def by simp
  have d: "w5 div 16 \<le> w5" by simp
  note sw = size_wrap_small [OF assms(1)]
  have e1: "size_wrap sz (0 + off) = off" using off by (simp add: sw)
  have e2: "size_wrap sz (off + 1) = off + 1" by (rule sw) (use off in simp)
  have e3: "size_wrap sz (off + 1 + int_to_size sz (int K)) = P"
  proof -
    have "int_to_size sz (int K) = K" by (rule int_to_size_small [OF assms(1)]) (use K in simp)
    moreover have "size_wrap sz (off + 1 + K) = off + 1 + K" by (rule sw) (use off K in simp)
    ultimately show ?thesis by (simp add: P_def)
  qed
  have e4: "size_wrap sz (P + 1) = P + 1" by (rule sw) (use off K in \<open>simp add: P_def\<close>)
  have e5: "size_wrap sz (P + 1 + (16 - (P + 1) mod 16)) = w5"
    unfolding w5_def [symmetric] by (rule sw) (use w5 off K in \<open>simp add: P_def\<close>)
  have e6: "size_wrap sz (w5 + w5 div 16) = w5 + w5 div 16"
    by (rule sw) (use w5 d off K in \<open>simp add: P_def\<close>)
  have e7: "size_wrap sz (w5 + w5 div 16 + 18) = w5 + w5 div 16 + 18"
    by (rule sw) (use w5 d off K in \<open>simp add: P_def\<close>)
  have c: "576 div 32 = (18::nat)" by simp
  show ?thesis
    unfolding textMessageLength_def PREAMBLE_LENGTH_def BATCH_SIZE_def Let_def
      text_words_in_int [OF assms(2)] off_def [symmetric] K_def [symmetric]
      e1 e2 e3 e4 e5 e6 c e7
    unfolding w5_def P_def by (rule refl)
qed

lemma length_encodeTransmission:
  assumes "32 \<le> sz" and "7 * strlen msg + 19 < 2 ^ 31"
  shows "length (encodeTransmission a msg) = textMessageLength sz a (int (strlen msg))"
  unfolding textMessageLength_eq [OF assms] by (rule length_encodeTransmission_words)

lemma textMessageLength_frame:
  assumes "unat a mod 8 = unat a' mod 8"
  shows "textMessageLength sz a n = textMessageLength sz a' n"
proof -
  have "unat (addressOffset a) = unat (addressOffset a')"
    using assms by (simp add: unat_addressOffset)
  then show ?thesis by (simp add: textMessageLength_def)
qed

lemma strlen_replicate: "c \<noteq> 0 \<Longrightarrow> strlen (replicate n c) = n"
  by (simp add: strlen_def c_string_def takeWhile_replicate)

subsection \<open>Message bits held by the packer\<close>

lemma bit_shift_in:
  "bit (shift_in w b) j \<longleftrightarrow> j < 32 \<and> (if j = 0 then b else bit w (j - 1))"
  unfolding shift_in_def
  by (cases j) (auto simp only: bit_or_iff bit_push_bit_iff bit_of_bool_iff possible_bit_word
      split: if_splits, simp_all)

lemma acc_bits_shift_in:
  assumes "k < 20"
  shows "acc_bits (shift_in w b) (Suc k) = acc_bits w k @ [b]"
proof -
  have "map (\<lambda>i. bit (shift_in w b) (Suc k - 1 - i)) [0..<k] = map (\<lambda>i. bit w (k - 1 - i)) [0..<k]"
    using assms by (intro map_cong refl) (auto simp: bit_shift_in)
  then show ?thesis
    using assms by (simp add: acc_bits_def bit_shift_in)
qed

lemma bit_FLAG_MESSAGE: "bit FLAG_MESSAGE j \<longleftrightarrow> j = 20"
proof -
  have e: "(0x100000 :: u32) = 2 ^ 20" by simp
  have "bit (2 ^ 20 :: u32) j \<longleftrightarrow> j = 20"
    by (simp only: bit_exp_iff possible_bit_word) auto
  then show ?thesis unfolding FLAG_MESSAGE_def e .
qed

lemma is_data_codeword: "is_data_word (encodeCodeword (w OR FLAG_MESSAGE))"
  by (simp add: is_data_word_def encodeCodeword_bit bit_or_iff bit_FLAG_MESSAGE)

lemma payload_bits_codeword:
  "payload_bits (encodeCodeword (w OR FLAG_MESSAGE)) = acc_bits w 20"
proof -
  have "bit (encodeCodeword (w OR FLAG_MESSAGE)) (30 - i) = bit w (20 - 1 - i)" if "i < 20" for i
  proof -
    have "30 - i - 11 = 19 - i" "\<not> 30 - i \<le> 10" "30 - i \<noteq> 0" "30 - i < 32" using that by simp_all
    moreover have "\<not> bit FLAG_MESSAGE (19 - i)"
      using that by (simp add: bit_FLAG_MESSAGE)
    ultimately show ?thesis by (simp add: encodeCodeword_bit bit_or_iff)
  qed
  then show ?thesis unfolding payload_bits_def acc_bits_def by (intro map_cong refl) simp
qed

lemma not_data_SYNC: "\<not> is_data_word SYNC"
  by (simp add: is_data_word_def SYNC_def)

lemma not_data_IDLE: "\<not> is_data_word IDLE"
  by (simp add: is_data_word_def IDLE_def)

lemma data_bits_append: "data_bits (xs @ ys) = data_bits xs @ data_bits ys"
  by (simp add: data_bits_def)

lemma data_bits_codeword:
  "data_bits (encodeCodeword (w OR FLAG_MESSAGE) # (if p then [SYNC] else [])) = acc_bits w 20"
  by (simp add: data_bits_def is_data_codeword payload_bits_codeword not_data_SYNC)

lemma held_bits_step:
  assumes "currentNumBits s < 20" and "i < 8"
  shows "held_bits (encode_bit c s i) = held_bits s @ [bit c i]"
proof (cases "currentNumBits s = 19")
  case True
  have "acc_bits (shift_in (currentWord s) (bit c i)) 20
        = acc_bits (currentWord s) 19 @ [bit c i]"
    using acc_bits_shift_in [of 19 "currentWord s" "bit c i"] by simp
  then show ?thesis
    using True
    by (simp add: held_bits_def encode_bit_simps encode_bit_out [OF assms(2)]
        data_bits_append data_bits_codeword acc_bits_def)
next
  case False
  with assms(1) have "currentNumBits s < 19" by simp
  then have "acc_bits (shift_in (currentWord s) (bit c i)) (Suc (currentNumBits s))
        = acc_bits (currentWord s) (currentNumBits s) @ [bit c i]"
    by (intro acc_bits_shift_in) simp
  then show ?thesis
    using False
    by (simp add: held_bits_def encode_bit_simps encode_bit_out [OF assms(2)])
qed

lemma held_bits_loop:
  assumes "counted off k s" and "n \<le> 8"
  shows "held_bits (foldl (encode_bit c) s [0..<n]) = held_bits s @ map (bit c) [0..<n]"
  using assms(2)
proof (induction n)
  case 0
  show ?case by simp
next
  case (Suc n)
  let ?s = "foldl (encode_bit c) s [0..<n]"
  have "counted off (k + n) ?s" using assms(1) by (rule counted_bits) (use Suc.prems in simp)
  then have "currentNumBits ?s < 20" by (simp add: counted_def)
  then have "held_bits (encode_bit c ?s n) = held_bits ?s @ [bit c n]"
    by (rule held_bits_step) (use Suc.prems in simp)
  with Suc show ?case by simp
qed

lemma held_bits_chars:
  assumes "counted off k s"
  shows "held_bits (encode_chars str s) = held_bits s @ concat (map char_bits (c_string str))"
  using assms
proof (induction str arbitrary: k s)
  case Nil
  show ?case by (simp add: c_string_def)
next
  case (Cons c str)
  show ?case
  proof (cases "c = 0")
    case True
    then show ?thesis by (simp add: c_string_def)
  next
    case False
    let ?s = "foldl (encode_bit c) s [0..<7]"
    have "counted off (k + 7) ?s" using Cons.prems by (rule counted_bits) simp
    then have "held_bits (encode_chars str ?s) = held_bits ?s @ concat (map char_bits (c_string str))"
      by (rule Cons.IH)
    moreover have "held_bits ?s = held_bits s @ char_bits c"
      unfolding char_bits_def using Cons.prems by (rule held_bits_loop) simp
    ultimately show ?thesis
      using False by (simp add: c_string_def TEXT_BITS_PER_CHAR_def)
  qed
qed

lemma acc_bits_push:
  assumes "k \<le> 20"
  shows "acc_bits (push_bit (20 - k) w) 20 = acc_bits w k @ replicate (20 - k) False"
proof (rule nth_equalityI)
  show "length (acc_bits (push_bit (20 - k) w) 20) = length (acc_bits w k @ replicate (20 - k) False)"
    using assms by (simp add: acc_bits_def)
next
  fix i assume "i < length (acc_bits (push_bit (20 - k) w) 20)"
  then have i: "i < 20" by (simp add: acc_bits_def)
  show "acc_bits (push_bit (20 - k) w) 20 ! i = (acc_bits w k @ replicate (20 - k) False) ! i"
  proof (cases "i < k")
    case True
    then have "19 - i - (20 - k) = k - 1 - i" "20 - k \<le> 19 - i" "19 - i < 32"
      using assms by simp_all
    then show ?thesis using True i assms
      by (simp add: acc_bits_def nth_append bit_push_bit_iff)
  next
    case False
    then have "\<not> 20 - k \<le> 19 - i" using i assms by simp
    then show ?thesis using False i assms
      by (simp add: acc_bits_def nth_append bit_push_bit_iff)
  qed
qed

lemma data_bits_encodeASCII:
  assumes "off < 16"
  shows "data_bits (snd (encodeASCII off str))
         = concat (map char_bits (c_string str))
           @ replicate ((20 - 7 * strlen str mod 20) mod 20) False"
proof -
  define s0 where "s0 = \<lparr>currentWord = 0, currentNumBits = 0, wordPosition = off,
                 numWordsWritten = 0, out = []\<rparr>"
  define s1 where "s1 = encode_chars str s0"
  define B where "B = concat (map char_bits (c_string str))"
  have c0: "counted off 0 s0" using assms by (simp add: counted_def s0_def)
  then have "counted off (0 + 7 * strlen str) s1" unfolding s1_def by (rule counted_chars)
  then have nb: "currentNumBits s1 = 7 * strlen str mod 20" by (simp add: counted_def)
  have "held_bits s0 = []" by (simp add: held_bits_def s0_def data_bits_def acc_bits_def)
  then have h: "held_bits s1 = B"
    unfolding s1_def B_def using held_bits_chars [OF c0, of str] by simp
  have e: "snd (encodeASCII off str)
           = (if currentNumBits s1 > 0
              then out (put_codeword (push_bit (20 - currentNumBits s1) (currentWord s1)) s1)
              else out s1)"
    by (simp add: encodeASCII_def s0_def s1_def Let_def)
  show ?thesis
  proof (cases "currentNumBits s1 = 0")
    case True
    then have "data_bits (out s1) = B" using h by (simp add: held_bits_def acc_bits_def)
    then show ?thesis using True nb unfolding e B_def by simp
  next
    case False
    have lt: "currentNumBits s1 < 20" using nb by simp
    then have "acc_bits (push_bit (20 - currentNumBits s1) (currentWord s1)) 20
          = acc_bits (currentWord s1) (currentNumBits s1) @ replicate (20 - currentNumBits s1) False"
      by (intro acc_bits_push) simp
    then have "data_bits (out (put_codeword (push_bit (20 - currentNumBits s1) (currentWord s1)) s1))
          = held_bits s1 @ replicate (20 - currentNumBits s1) False"
      by (simp add: put_codeword_simps data_bits_append data_bits_codeword held_bits_def)
    moreover have "(20 - currentNumBits s1) mod 20 = 20 - currentNumBits s1"
      using False lt by simp
    ultimately show ?thesis using False nb h unfolding e B_def by simp
  qed
qed

subsection \<open>The address codeword and the words after the preamble\<close>

lemma signed_drop_bit_address:
  fixes a :: u32
  assumes "unat a < 2 ^ 21"
  shows "signed_drop_bit 3 a = drop_bit 3 a"
proof (rule bit_word_eqI)
  fix n assume "n < LENGTH(32)"
  have "\<not> bit a 31" using assms by (rule bit_above_bound) simp
  moreover have "\<not> bit a (3 + n)" if "29 \<le> n"
    using assms by (rule bit_above_bound) (use that in simp)
  ultimately show "bit (signed_drop_bit 3 a) n = bit (drop_bit 3 a) n"
    by (auto simp: bit_signed_drop_bit_iff bit_drop_bit_eq)
qed

lemma address_payload_bit:
  fixes a :: u32
  shows "bit (push_bit 2 (drop_bit 3 a) OR FLAG_TEXT_DATA) j
         \<longleftrightarrow> j < 32 \<and> (if j < 2 then True else bit a (j + 1))"
proof -
  have f: "bit FLAG_TEXT_DATA j \<longleftrightarrow> j < 2"
  proof -
    have e: "(3 :: u32) = mask 2" by (simp add: mask_eq_exp_minus_1)
    have "bit (mask 2 :: u32) j \<longleftrightarrow> j < 2" by (simp only: bit_mask_iff possible_bit_word) auto
    then show ?thesis unfolding FLAG_TEXT_DATA_def e .
  qed
  show ?thesis
    unfolding bit_or_iff f bit_push_bit_iff bit_drop_bit_eq possible_bit_word
    by (cases "j < 2") (auto simp: add.commute)
qed

lemma address_payload_bound:
  fixes a :: u32
  assumes "unat a < 2 ^ 21"
  shows "unat (push_bit 2 (drop_bit 3 a) OR FLAG_TEXT_DATA) < 2 ^ 20"
proof (rule bound_of_bits)
  fix i :: nat assume "20 \<le> i"
  then have "\<not> bit a (i + 1)" using assms by (intro bit_above_bound [of a 21]) simp_all
  then show "\<not> bit (push_bit 2 (drop_bit 3 a) OR FLAG_TEXT_DATA) i"
    using \<open>20 \<le> i\<close> by (simp add: address_payload_bit)
qed

lemma address_codeword_not_data:
  fixes a :: u32
  assumes "unat a < 2 ^ 21"
  shows "\<not> is_data_word (encodeCodeword (push_bit 2 (drop_bit 3 a) OR FLAG_TEXT_DATA))"
proof -
  have "\<not> bit a 21" using assms by (rule bit_above_bound) simp
  then show ?thesis
    by (simp add: is_data_word_def encodeCodeword_bit address_payload_bit)
qed

lemma address_codeword_bit_11:
  "bit (encodeCodeword (push_bit 2 (drop_bit 3 a) OR FLAG_TEXT_DATA)) 11"
  by (simp add: encodeCodeword_bit address_payload_bit)

lemma address_codeword_distinct:
  "encodeCodeword (push_bit 2 (drop_bit 3 a) OR FLAG_TEXT_DATA) \<noteq> IDLE"
  "encodeCodeword (push_bit 2 (drop_bit 3 a) OR FLAG_TEXT_DATA) \<noteq> SYNC"
proof -
  have "\<not> bit IDLE 11" "\<not> bit SYNC 11" by (simp_all add: IDLE_def SYNC_def)
  then show "encodeCodeword (push_bit 2 (drop_bit 3 a) OR FLAG_TEXT_DATA) \<noteq> IDLE"
    "encodeCodeword (push_bit 2 (drop_bit 3 a) OR FLAG_TEXT_DATA) \<noteq> SYNC"
    using address_codeword_bit_11 [of a] by auto
qed

lemma drop_preamble:
  "drop 18 (encodeTransmission a msg)
   = transmission_body a msg
     @ replicate (17 - length (transmission_body a msg) mod 17) IDLE"
  by (simp add: encodeTransmission_def Let_def PREAMBLE_LENGTH_def BATCH_SIZE_def)

lemma filter_data_replicate_IDLE: "filter is_data_word (replicate n IDLE) = []"
  by (simp add: not_data_IDLE)

lemma filter_data_transmission:
  fixes a :: u32
  assumes "unat a < 2 ^ 21"
  shows "filter is_data_word (drop 18 (encodeTransmission a msg))
         = filter is_data_word (snd (encodeASCII (unat (addressOffset a) + 1) msg))"
  unfolding drop_preamble transmission_body_def Let_def signed_drop_bit_address [OF assms]
  using address_codeword_not_data [OF assms]
  by (simp add: not_data_SYNC not_data_IDLE)

lemma data_bits_transmission:
  fixes a :: u32
  assumes "unat a < 2 ^ 21"
  shows "data_bits (drop 18 (encodeTransmission a msg))
         = concat (map char_bits (c_string msg))
           @ replicate ((20 - 7 * strlen msg mod 20) mod 20) False"
proof -
  have "unat (addressOffset a) + 1 < 16" using addressOffset_le [of a] by simp
  then have "data_bits (snd (encodeASCII (unat (addressOffset a) + 1) msg))
         = concat (map char_bits (c_string msg))
           @ replicate ((20 - 7 * strlen msg mod 20) mod 20) False"
    by (rule data_bits_encodeASCII)
  then show ?thesis
    using filter_data_transmission [OF assms, of msg] by (simp add: data_bits_def)
qed

subsection \<open>The decoder\<close>

lemma char_bits_explicit:
  "char_bits c = [bit c 0, bit c 1, bit c 2, bit c 3, bit c 4, bit c 5, bit c 6]"
  by (simp add: char_bits_def upt_conv_Cons eval_nat_numeral)

lemma chunks7_chars:
  "chunks7 (concat (map char_bits cs) @ rest) = map char_bits cs @ chunks7 rest"
  by (induction cs) (simp_all add: char_bits_explicit)

lemma bits_char_fold:
  fixes c :: u8
  assumes "i \<le> n"
  shows "foldr (\<lambda>b acc. push_bit 1 acc OR of_bool b) (map (bit c) [i..<n]) (0 :: u8)
         = drop_bit i (take_bit n c)"
  using assms
proof (induction "n - i" arbitrary: i)
  case 0
  then have "i = n" by simp
  have "drop_bit n (take_bit n c) = 0"
    by (rule bit_word_eqI) (simp add: bit_drop_bit_eq bit_take_bit_iff)
  then show ?case using \<open>i = n\<close> by simp
next
  case (Suc d)
  then have lt: "i < n" and d: "d = n - Suc i" and le: "Suc i \<le> n" by simp_all
  have ih: "foldr (\<lambda>b acc. push_bit 1 acc OR of_bool b) (map (bit c) [Suc i..<n]) (0 :: u8)
            = drop_bit (Suc i) (take_bit n c)"
    using Suc.hyps(1) [OF d le] .
  have "push_bit 1 (drop_bit (Suc i) (take_bit n c)) OR of_bool (bit c i)
        = drop_bit i (take_bit n c)"
  proof (rule bit_word_eqI)
    fix j assume "j < LENGTH(8)"
    show "bit (push_bit 1 (drop_bit (Suc i) (take_bit n c)) OR of_bool (bit c i)) j
          = bit (drop_bit i (take_bit n c)) j"
      using lt \<open>j < LENGTH(8)\<close>
      by (cases j) (simp_all only: bit_or_iff bit_push_bit_iff bit_of_bool_iff bit_drop_bit_eq
          bit_take_bit_iff possible_bit_word, auto simp: bit_take_bit_iff)
  qed
  then show ?case using lt ih by (simp add: upt_conv_Cons)
qed

lemma bits_char_char_bits: "bits_char (char_bits c) = take_bit 7 c"
  using bits_char_fold [of 0 7 c] by (simp add: bits_char_def char_bits_def)

lemma bits_char_zero: "\<forall>b \<in> set bs. \<not> b \<Longrightarrow> bits_char bs = 0"
  by (induction bs) (auto simp: bits_char_def)

lemma chunks7_set: "x \<in> set (chunks7 bs) \<Longrightarrow> set x \<subseteq> set bs"
  by (induction bs arbitrary: x rule: chunks7.induct) auto

lemma chunks7_zero:
  assumes "\<forall>b \<in> set bs. \<not> b"
  shows "\<forall>c \<in> set (map bits_char (chunks7 bs)). c = 0"
proof -
  have "bits_char x = 0" if "x \<in> set (chunks7 bs)" for x
    using chunks7_set [OF that] assms by (intro bits_char_zero) auto
  then show ?thesis by simp
qed

lemma take_bit_7_char:
  fixes c :: u8
  assumes "unat c < 128"
  shows "take_bit 7 c = c"
proof -
  have "unat (take_bit 7 c) = take_bit 7 (unat c)" by (simp only: unsigned_take_bit_eq)
  also have "\<dots> = unat c" using assms by (simp add: take_bit_nat_eq_self)
  finally show ?thesis by (simp only: word_unat_eq_iff)
qed

lemma takeWhile_none: "\<forall>x \<in> set ys. \<not> P x \<Longrightarrow> takeWhile P ys = []"
  by (cases ys) simp_all

lemma c_string_nonzero: "c \<in> set (c_string msg) \<Longrightarrow> c \<noteq> 0"
  unfolding c_string_def by (auto dest: set_takeWhileD)

lemma c_string_subset: "set (c_string msg) \<subseteq> set msg"
  unfolding c_string_def by (auto dest: set_takeWhileD)

lemma decode_transmission:
  fixes a :: u32
  assumes "unat a < 2 ^ 21" and "\<forall>c \<in> set msg. unat c < 128"
  shows "decode_text (drop 18 (encodeTransmission a msg)) = c_string msg"
proof -
  define Z where "Z = replicate ((20 - 7 * strlen msg mod 20) mod 20) False"
  have "map bits_char (map char_bits (c_string msg)) = map (\<lambda>c. c) (c_string msg)"
    unfolding map_map
  proof (rule map_cong [OF refl])
    fix c assume "c \<in> set (c_string msg)"
    then have "unat c < 128" using assms(2) c_string_subset by auto
    then show "(bits_char \<circ> char_bits) c = c"
      by (simp add: bits_char_char_bits take_bit_7_char)
  qed
  then have m: "map bits_char (map char_bits (c_string msg)) = c_string msg" by simp
  have z: "\<forall>c \<in> set (map bits_char (chunks7 Z)). \<not> c \<noteq> 0"
    using chunks7_zero [of Z] by (simp add: Z_def)
  have "decode_text (drop 18 (encodeTransmission a msg))
        = takeWhile (\<lambda>c. c \<noteq> 0) (c_string msg @ map bits_char (chunks7 Z))"
    unfolding decode_text_def data_bits_transmission [OF assms(1)] Z_def [symmetric]
      chunks7_chars map_append m by (rule refl)
  also have "\<dots> = c_string msg @ takeWhile (\<lambda>c. c \<noteq> 0) (map bits_char (chunks7 Z))"
    by (rule takeWhile_append2) (rule c_string_nonzero)
  also have "takeWhile (\<lambda>c. c \<noteq> 0) (map bits_char (chunks7 Z)) = []"
    using z by (rule takeWhile_none)
  finally show ?thesis by simp
qed

lemma no_data_words_empty:
  fixes a :: u32
  assumes "unat a < 2 ^ 21" and "strlen msg = 0"
  shows "filter is_data_word (drop 18 (encodeTransmission a msg)) = []"
proof -
  have "c_string msg = []" using assms(2) by (simp add: strlen_def)
  then have "encode_chars msg s = s" for s
    by (cases msg) (auto simp: c_string_def split: if_splits)
  then have "snd (encodeASCII (unat (addressOffset a) + 1) msg) = []"
    by (simp add: encodeASCII_def)
  then show ?thesis using filter_data_transmission [OF assms(1), of msg] by simp
qed

section \<open>Length agreement, address placement and text round trip\<close>

text \<open>
  Claim C1, as amended. For a \<open>size_t\<close> of at least 32 bits and every message whose
  length \<open>n\<close> keeps \<open>7 * n + 19\<close> inside the range of \<open>int\<close> (at most 306783375
  characters), \<open>encodeTransmission\<close> writes exactly
  \<open>textMessageLength address (strlen message)\<close> words, the 18 preamble words included;
  the count \<open>encodeASCII\<close> returns is the number of words it wrote. This holds for every
  address and for the empty message as well.
\<close>

theorem encodeTransmission_length_agrees:
  assumes "32 \<le> sz" and "7 * strlen message + 19 < 2 ^ 31"
  shows "length (encodeTransmission address message)
           = textMessageLength sz address (int (strlen message))
       \<and> take 18 (encodeTransmission address message) = replicate 18 0xAAAAAAAA
       \<and> fst (encodeASCII (unat (addressOffset address) + 1) message)
           = length (snd (encodeASCII (unat (addressOffset address) + 1) message))"
proof -
  have "unat (addressOffset address) + 1 < 16" using addressOffset_le [of address] by simp
  then have "length (snd (encodeASCII (unat (addressOffset address) + 1) message))
             = fst (encodeASCII (unat (addressOffset address) + 1) message)"
    by (rule encodeASCII_count(2))
  moreover have "take 18 (encodeTransmission address message) = replicate 18 0xAAAAAAAA"
    by (simp add: encodeTransmission_def Let_def PREAMBLE_LENGTH_def)
  ultimately show ?thesis
    using length_encodeTransmission [OF assms, of address] by simp
qed

theorem encodeTransmission_length_agrees_witness:
  "(32 :: nat) \<le> 32
   \<and> 7 * strlen [0x48, 0x69] + 19 < 2 ^ 31
   \<and> textMessageLength 32 5 (int (strlen [0x48, 0x69])) = 35
   \<and> length (encodeTransmission 5 [0x48, 0x69])
       = textMessageLength 32 5 (int (strlen [0x48, 0x69]))
   \<and> take 18 (encodeTransmission 5 [0x48, 0x69]) = replicate 18 0xAAAAAAAA
   \<and> fst (encodeASCII (unat (addressOffset 5) + 1) [0x48, 0x69])
       = length (snd (encodeASCII (unat (addressOffset 5) + 1) [0x48, 0x69]))"
proof -
  have h1: "(32 :: nat) \<le> 32" by simp
  have s: "strlen [0x48, 0x69] = 2" by (simp add: strlen_def c_string_def)
  have h2: "7 * strlen [0x48, 0x69] + 19 < 2 ^ 31" unfolding s by simp
  have o: "unat (addressOffset 5) = 10" by (simp add: unat_addressOffset)
  have v: "textMessageLength 32 5 (int (strlen [0x48, 0x69])) = 35"
    unfolding s textMessageLength_def Let_def o TEXT_BITS_PER_CHAR_def
      TEXT_BITS_PER_WORD_def BATCH_SIZE_def PREAMBLE_LENGTH_def
    apply (simp add: int_wrap_def)
    apply (simp add: int_div_def)
    apply (simp add: int_to_size_def)
    apply (simp add: size_wrap_def)
    done
  show ?thesis
    using h1 h2 v encodeTransmission_length_agrees [OF h1 h2, of 5]
    by - (elim conjE, intro conjI; assumption)
qed

text \<open>
  Claim C1 as stated, evaluated where it fails. For a message of 306783379 characters
  \<open>A\<close> and address 0, \<open>encodeTransmission\<close> writes 114085097 words. In
  \<open>textMessageLength\<close> the product \<open>306783379 * 7 = 2147483653\<close> leaves the range of
  \<open>int\<close>: wrapped around it is negative, and the result is 1152921504492761932 with a
  64-bit \<open>size_t\<close> and 154350412 with a 32-bit one.
\<close>

theorem length_calculator_int_overflow:
  "strlen (replicate 306783379 0x41) = 306783379
   \<and> length (encodeTransmission 0 (replicate 306783379 0x41)) = 114085097
   \<and> textMessageLength 64 0 (int (strlen (replicate 306783379 0x41))) = 1152921504492761932
   \<and> textMessageLength 32 0 (int (strlen (replicate 306783379 0x41))) = 154350412
   \<and> length (encodeTransmission 0 (replicate 306783379 0x41))
       \<noteq> textMessageLength 64 0 (int (strlen (replicate 306783379 0x41)))
   \<and> length (encodeTransmission 0 (replicate 306783379 0x41))
       \<noteq> textMessageLength 32 0 (int (strlen (replicate 306783379 0x41)))"
proof -
  define msg :: "u8 list" where "msg = replicate 306783379 0x41"
  have s: "strlen msg = 306783379"
    unfolding msg_def by (rule strlen_replicate) simp
  have o: "unat (addressOffset 0) = 0" by (simp add: unat_addressOffset)
  have l: "length (encodeTransmission 0 msg) = 114085097"
    unfolding length_encodeTransmission_words s o Let_def by simp
  have t64: "textMessageLength 64 0 306783379 = 1152921504492761932"
    unfolding textMessageLength_def Let_def o TEXT_BITS_PER_CHAR_def
      TEXT_BITS_PER_WORD_def BATCH_SIZE_def PREAMBLE_LENGTH_def
    apply (simp add: int_wrap_def)
    apply (simp add: int_div_def)
    apply (simp add: int_to_size_def)
    apply (simp add: size_wrap_def)
    done
  have t32: "textMessageLength 32 0 306783379 = 154350412"
    unfolding textMessageLength_def Let_def o TEXT_BITS_PER_CHAR_def
      TEXT_BITS_PER_WORD_def BATCH_SIZE_def PREAMBLE_LENGTH_def
    apply (simp add: int_wrap_def)
    apply (simp add: int_div_def)
    apply (simp add: int_to_size_def)
    apply (simp add: size_wrap_def)
    done
  have i: "int (strlen msg) = 306783379" unfolding s by simp
  have "strlen msg = 306783379
   \<and> length (encodeTransmission 0 msg) = 114085097
   \<and> textMessageLength 64 0 (int (strlen msg)) = 1152921504492761932
   \<and> textMessageLength 32 0 (int (strlen msg)) = 154350412
   \<and> length (encodeTransmission 0 msg) \<noteq> textMessageLength 64 0 (int (strlen msg))
   \<and> length (encodeTransmission 0 msg) \<noteq> textMessageLength 32 0 (int (strlen msg))"
    using l t64 t32 by (simp only: i s) simp
  then show ?thesis unfolding msg_def .
qed

text \<open>
  The bound is exact: at address 0 the calculator is right for 306783375 characters,
  the largest number for which \<open>7 * n + 19\<close> is an \<open>int\<close>, and wrong for one character
  more, where 114085097 words are written as well.
\<close>

lemma length_calculator_bound_exact:
  "7 * 306783375 + 19 < (2 ^ 31 :: nat) \<and> (2 ^ 31 :: nat) \<le> 7 * 306783376 + 19
   \<and> textMessageLength 32 0 306783375 = 114085097
   \<and> textMessageLength 32 0 306783376 = 154350412
   \<and> textMessageLength 64 0 306783376 = 1152921504492761932
   \<and> length (encodeTransmission 0 (replicate 306783376 0x41)) = 114085097"
proof -
  define msg :: "u8 list" where "msg = replicate 306783376 0x41"
  have s: "strlen msg = 306783376"
    unfolding msg_def by (rule strlen_replicate) simp
  have o: "unat (addressOffset 0) = 0" by (simp add: unat_addressOffset)
  have a: "textMessageLength 32 0 306783375 = 114085097"
    unfolding textMessageLength_def Let_def o TEXT_BITS_PER_CHAR_def
      TEXT_BITS_PER_WORD_def BATCH_SIZE_def PREAMBLE_LENGTH_def
    apply (simp add: int_wrap_def)
    apply (simp add: int_div_def)
    apply (simp add: int_to_size_def)
    apply (simp add: size_wrap_def)
    done
  have b: "textMessageLength 32 0 306783376 = 154350412"
    unfolding textMessageLength_def Let_def o TEXT_BITS_PER_CHAR_def
      TEXT_BITS_PER_WORD_def BATCH_SIZE_def PREAMBLE_LENGTH_def
    apply (simp add: int_wrap_def)
    apply (simp add: int_div_def)
    apply (simp add: int_to_size_def)
    apply (simp add: size_wrap_def)
    done
  have c: "textMessageLength 64 0 306783376 = 1152921504492761932"
    unfolding textMessageLength_def Let_def o TEXT_BITS_PER_CHAR_def
      TEXT_BITS_PER_WORD_def BATCH_SIZE_def PREAMBLE_LENGTH_def
    apply (simp add: int_wrap_def)
    apply (simp add: int_div_def)
    apply (simp add: int_to_size_def)
    apply (simp add: size_wrap_def)
    done
  have "length (encodeTransmission 0 msg) = 114085097"
    unfolding length_encodeTransmission_words s o Let_def by simp
  then have l: "length (encodeTransmission 0 (replicate 306783376 0x41)) = 114085097"
    unfolding msg_def .
  show ?thesis using a b c l by simp
qed

text \<open>
  Claim C5. For every 21-bit address, what follows the preamble is the SYNC word, then
  exactly \<open>(address mod 8) * 2\<close> IDLE words, then the address codeword, which is
  \<open>encodeCodeword (((address >> 3) << 2) | 3)\<close> and is not an IDLE word; so the address
  word is payload word number \<open>(address mod 8) * 2\<close> of the first batch. Its payload
  field has the address bits above the low three in its upper 18 bits and \<open>0b11\<close> in its
  two low bits.
\<close>

theorem address_word_placement:
  fixes address :: u32
  assumes "unat address < 2 ^ 21"
  shows "(\<exists>rest. drop 18 (encodeTransmission address message)
            = SYNC # replicate (unat address mod 8 * 2) IDLE
              @ encodeCodeword (push_bit 2 (drop_bit 3 address) OR 3) # rest)
       \<and> drop 18 (encodeTransmission address message) ! (1 + unat address mod 8 * 2)
           = encodeCodeword (push_bit 2 (drop_bit 3 address) OR 3)
       \<and> encodeCodeword (push_bit 2 (drop_bit 3 address) OR 3) \<noteq> IDLE
       \<and> drop_bit 11 (encodeCodeword (push_bit 2 (drop_bit 3 address) OR 3))
           = push_bit 2 (drop_bit 3 address) OR 3
       \<and> drop_bit 13 (encodeCodeword (push_bit 2 (drop_bit 3 address) OR 3))
           = drop_bit 3 address
       \<and> take_bit 2 (drop_bit 11 (encodeCodeword (push_bit 2 (drop_bit 3 address) OR 3))) = 3"
proof -
  define cw where "cw = encodeCodeword (push_bit 2 (drop_bit 3 address) OR 3)"
  define off where "off = unat address mod 8 * 2"
  have o: "unat (addressOffset address) = off"
    by (simp add: unat_addressOffset off_def)
  obtain rest where d: "drop 18 (encodeTransmission address message)
      = SYNC # replicate off IDLE @ cw # rest"
    unfolding drop_preamble transmission_body_def Let_def o cw_def
      signed_drop_bit_address [OF assms] FLAG_TEXT_DATA_def
    by simp
  have n: "drop 18 (encodeTransmission address message) ! (1 + off) = cw"
    unfolding d by (simp add: nth_append)
  have p: "drop_bit 11 cw = push_bit 2 (drop_bit 3 address) OR 3"
  proof -
    have "unat (push_bit 2 (drop_bit 3 address) OR 3) < 2 ^ 20"
      using address_payload_bound [OF assms] by (simp add: FLAG_TEXT_DATA_def)
    then have "unat (push_bit 2 (drop_bit 3 address) OR 3) < 2 ^ 21" by simp
    then show ?thesis unfolding cw_def by (rule encodeCodeword_payload)
  qed
  have hi: "drop_bit 13 cw = drop_bit 3 address"
  proof -
    have "drop_bit 13 cw = drop_bit 2 (drop_bit 11 cw)" by (simp add: drop_bit_drop_bit)
    also have "\<dots> = drop_bit 3 address"
      unfolding p
    proof (rule bit_word_eqI)
      fix n assume "n < LENGTH(32)"
      note pb = address_payload_bit [unfolded FLAG_TEXT_DATA_def, of address "2 + n"]
      have "bit (drop_bit 2 (push_bit 2 (drop_bit 3 address) OR 3)) n
            = bit (push_bit 2 (drop_bit 3 address) OR 3) (2 + n)"
        by (simp only: bit_drop_bit_eq comp_def)
      also have "\<dots> = (2 + n < 32 \<and> bit address (3 + n))"
        unfolding pb by (simp add: eval_nat_numeral)
      also have "\<dots> = bit address (3 + n)"
        using bit_below_bound [OF assms, of "3 + n"] by auto
      also have "\<dots> = bit (drop_bit 3 address) n"
        by (simp only: bit_drop_bit_eq comp_def)
      finally show "bit (drop_bit 2 (push_bit 2 (drop_bit 3 address) OR 3)) n
            = bit (drop_bit 3 address) n" .
    qed
    finally show ?thesis .
  qed
  have lo: "take_bit 2 (drop_bit 11 cw) = 3"
    unfolding p
  proof (rule bit_word_eqI)
    fix n assume "n < LENGTH(32)"
    have e: "(3 :: u32) = mask 2" by (simp add: mask_eq_exp_minus_1)
    have "bit (mask 2 :: u32) n \<longleftrightarrow> n < 2" by (simp only: bit_mask_iff possible_bit_word) auto
    then have "bit (3 :: u32) n \<longleftrightarrow> n < 2" unfolding e .
    moreover have "bit (take_bit 2 (push_bit 2 (drop_bit 3 address) OR 3)) n
          = (n < 2 \<and> bit (push_bit 2 (drop_bit 3 address) OR 3) n)"
      by (simp only: bit_take_bit_iff)
    ultimately show "bit (take_bit 2 (push_bit 2 (drop_bit 3 address) OR 3)) n = bit (3 :: u32) n"
      unfolding address_payload_bit [unfolded FLAG_TEXT_DATA_def] by auto
  qed
  have "cw \<noteq> IDLE" using address_codeword_distinct(1) [of address]
    by (simp add: cw_def FLAG_TEXT_DATA_def)
  then show ?thesis
    using d n p hi lo unfolding cw_def off_def by blast
qed

theorem address_word_placement_witness:
  "unat (7 :: u32) < 2 ^ 21
   \<and> (\<exists>rest. drop 18 (encodeTransmission 7 [0x41])
            = SYNC # replicate (unat (7 :: u32) mod 8 * 2) IDLE
              @ encodeCodeword (push_bit 2 (drop_bit 3 7) OR 3) # rest)
   \<and> drop 18 (encodeTransmission 7 [0x41]) ! (1 + unat (7 :: u32) mod 8 * 2)
       = encodeCodeword (push_bit 2 (drop_bit 3 7) OR 3)
   \<and> encodeCodeword (push_bit 2 (drop_bit 3 7) OR 3) \<noteq> IDLE
   \<and> drop_bit 11 (encodeCodeword (push_bit 2 (drop_bit 3 7) OR 3))
       = push_bit 2 (drop_bit 3 7) OR 3
   \<and> drop_bit 13 (encodeCodeword (push_bit 2 (drop_bit 3 7) OR 3)) = drop_bit 3 7
   \<and> take_bit 2 (drop_bit 11 (encodeCodeword (push_bit 2 (drop_bit 3 7) OR 3))) = 3"
proof -
  have h: "unat (7 :: u32) < 2 ^ 21" by simp
  show ?thesis by (rule conjI [OF h address_word_placement [OF h]])
qed

text \<open>
  Claim C6. For every 21-bit address and every message: the payload bits of the data
  codewords of the transmission (the words after the preamble with the message flag set,
  which excludes SYNC, IDLE and the address word), taken in order and most significant
  bit first, are the seven bits of each character of the message, least significant bit
  first, followed by fewer than 20 zero bits. When all characters are below 128, the
  decoder that reads groups of seven bits in that order gives back the message. A message
  without characters gives no data word.
\<close>

theorem text_round_trip:
  fixes address :: u32
  assumes "unat address < 2 ^ 21" and "\<forall>c \<in> set message. unat c < 128"
  shows "data_bits (drop 18 (encodeTransmission address message))
           = concat (map char_bits (c_string message))
             @ replicate ((20 - 7 * strlen message mod 20) mod 20) False
       \<and> decode_text (drop 18 (encodeTransmission address message)) = c_string message
       \<and> (strlen message = 0
            \<longrightarrow> filter is_data_word (drop 18 (encodeTransmission address message)) = [])
       \<and> \<not> is_data_word SYNC \<and> \<not> is_data_word IDLE
       \<and> \<not> is_data_word (encodeCodeword (push_bit 2 (drop_bit 3 address) OR 3))"
  using data_bits_transmission [OF assms(1), of message] decode_transmission [OF assms]
    no_data_words_empty [OF assms(1), of message] not_data_SYNC not_data_IDLE
    address_codeword_not_data [OF assms(1)]
  by (simp add: FLAG_TEXT_DATA_def)

theorem text_round_trip_witness:
  "unat (5 :: u32) < 2 ^ 21 \<and> unat (0x48 :: u8) < 128 \<and> unat (0x69 :: u8) < 128
   \<and> data_bits (drop 18 (encodeTransmission 5 [0x48, 0x69]))
       = concat (map char_bits (c_string [0x48, 0x69]))
         @ replicate ((20 - 7 * strlen [0x48, 0x69] mod 20) mod 20) False
   \<and> decode_text (drop 18 (encodeTransmission 5 [0x48, 0x69])) = c_string [0x48, 0x69]
   \<and> strlen [] = 0
   \<and> filter is_data_word (drop 18 (encodeTransmission 5 [])) = []"
proof -
  have h1: "unat (5 :: u32) < 2 ^ 21" by simp
  have h2: "\<forall>c \<in> set [0x48, 0x69 :: u8]. unat c < 128" by simp
  have h3: "\<forall>c \<in> set ([] :: u8 list). unat c < 128" by simp
  have h4: "strlen [] = 0" by (simp add: strlen_def c_string_def)
  show ?thesis
    using h1 h4 text_round_trip [OF h1 h2] text_round_trip [OF h1 h3] by simp
qed

text \<open>
  Claim C10. \<open>textMessageLength\<close> depends on the address only through its low three
  bits, and the number of words \<open>encodeTransmission\<close> writes depends on the message only
  through its length.
\<close>

theorem length_depends_on_frame_and_strlen:
  "(unat a mod 8 = unat a' mod 8 \<longrightarrow> textMessageLength sz a n = textMessageLength sz a' n)
   \<and> (strlen m = strlen m'
        \<longrightarrow> length (encodeTransmission a m) = length (encodeTransmission a m'))"
proof -
  have "textMessageLength sz a n = textMessageLength sz a' n" if "unat a mod 8 = unat a' mod 8"
    using that by (rule textMessageLength_frame)
  moreover have "length (encodeTransmission a m) = length (encodeTransmission a m')"
    if "strlen m = strlen m'"
    using that by (simp add: length_encodeTransmission_words)
  ultimately show ?thesis by blast
qed

theorem length_depends_on_frame_and_strlen_witness:
  "unat (1 :: u32) mod 8 = unat (9 :: u32) mod 8
   \<and> textMessageLength 32 1 3 = textMessageLength 32 9 3
   \<and> strlen [0x41, 0x42] = strlen [0x7A, 0x31]
   \<and> length (encodeTransmission 1 [0x41, 0x42]) = length (encodeTransmission 1 [0x7A, 0x31])"
proof -
  have h1: "unat (1 :: u32) mod 8 = unat (9 :: u32) mod 8" by simp
  have h2: "strlen [0x41, 0x42] = strlen [0x7A, 0x31]" by (simp add: strlen_def c_string_def)
  show ?thesis
    using h1 h2 length_depends_on_frame_and_strlen [of 1 9 32 3 "[0x41, 0x42]" "[0x7A, 0x31]"]
    by blast
qed

section \<open>Padding of the last batch\<close>

lemma padding_count:
  "length (drop 18 (encodeTransmission a msg))
   = (length (transmission_body a msg) div 17 + 1) * 17"
proof -
  define w where "w = length (transmission_body a msg)"
  have "w + (17 - w mod 17) = (w div 17 + 1) * 17"
  proof -
    define q r where "q = w div 17" and "r = w mod 17"
    have "w = q * 17 + r" and "r < 17" by (simp_all add: q_def r_def)
    then have "w + (17 - r) = (q + 1) * 17" by simp
    then show ?thesis by (simp add: q_def r_def)
  qed
  then show ?thesis by (simp add: drop_preamble w_def)
qed

lemma padding_range:
  "length (drop 18 (encodeTransmission a msg)) - length (transmission_body a msg) \<in> {1..17}"
proof -
  have "length (transmission_body a msg) mod 17 < 17" by simp
  then show ?thesis by (auto simp: drop_preamble)
qed

lemma body_6_abc: "length (transmission_body 6 [0x61, 0x62, 0x63]) = 17"
proof -
  have "unat (addressOffset 6) = 12" by (simp add: unat_addressOffset)
  moreover have "strlen [0x61, 0x62, 0x63] = 3" by (simp add: strlen_def c_string_def)
  ultimately show ?thesis by (simp add: length_transmission_body Let_def)
qed

text \<open>
  Claim C3, evaluated where it fails. For address 7 and the empty message, and for
  address 6 and the message \<open>abc\<close>, the words from the first SYNC to the IDLE word that
  ends the message are already 17, a full batch; the code then writes 17 more IDLE
  words, so that 34 words follow the preamble. For address 0 and the empty message 17
  words follow the preamble.
\<close>

theorem padding_at_batch_boundary:
  "length (transmission_body 7 []) = 17
   \<and> drop 18 (encodeTransmission 7 []) = transmission_body 7 [] @ replicate 17 IDLE
   \<and> length (drop 18 (encodeTransmission 7 [])) = 34
   \<and> length (transmission_body 6 [0x61, 0x62, 0x63]) = 17
   \<and> length (drop 18 (encodeTransmission 6 [0x61, 0x62, 0x63])) = 34
   \<and> length (drop 18 (encodeTransmission 0 [])) = 17"
proof -
  have o7: "unat (addressOffset 7) = 14" and o0: "unat (addressOffset 0) = 0"
    by (simp_all add: unat_addressOffset)
  have e: "snd (encodeASCII n []) = []" for n by (simp add: encodeASCII_def)
  have b7: "length (transmission_body 7 []) = 17"
    by (simp add: transmission_body_def o7 e)
  have b0: "length (transmission_body 0 []) = 3"
    by (simp add: transmission_body_def o0 e)
  show ?thesis
    using b7 b0 body_6_abc by (simp add: drop_preamble)
qed

section \<open>Placement of the SYNC words\<close>

lemma sync_aligned_Nil: "sync_aligned p []"
  by (simp add: sync_aligned_def)

lemma sync_aligned_append:
  "sync_aligned p (xs @ ys) \<longleftrightarrow> sync_aligned p xs \<and> sync_aligned (p + length xs) ys"
proof
  assume a: "sync_aligned p (xs @ ys)"
  have "sync_aligned p xs"
    unfolding sync_aligned_def
  proof (intro allI impI)
    fix j assume "j < length xs"
    then show "(xs ! j = SYNC) = ((p + j) mod 17 = 0)"
      using a [unfolded sync_aligned_def, rule_format, of j] by (simp add: nth_append)
  qed
  moreover have "sync_aligned (p + length xs) ys"
    unfolding sync_aligned_def
  proof (intro allI impI)
    fix j assume "j < length ys"
    then show "(ys ! j = SYNC) = ((p + length xs + j) mod 17 = 0)"
      using a [unfolded sync_aligned_def, rule_format, of "length xs + j"]
      by (simp add: nth_append add.assoc)
  qed
  ultimately show "sync_aligned p xs \<and> sync_aligned (p + length xs) ys" ..
next
  assume a: "sync_aligned p xs \<and> sync_aligned (p + length xs) ys"
  show "sync_aligned p (xs @ ys)"
    unfolding sync_aligned_def
  proof (intro allI impI)
    fix j assume j: "j < length (xs @ ys)"
    show "((xs @ ys) ! j = SYNC) = ((p + j) mod 17 = 0)"
    proof (cases "j < length xs")
      case True
      then show ?thesis using a by (simp add: sync_aligned_def nth_append)
    next
      case False
      then have "j - length xs < length ys" and "p + length xs + (j - length xs) = p + j"
        using j by simp_all
      then show ?thesis
        using a [THEN conjunct2, unfolded sync_aligned_def, rule_format, of "j - length xs"] False
        by (simp add: nth_append)
    qed
  qed
qed

lemma sync_aligned_single: "sync_aligned p [w] \<longleftrightarrow> (w = SYNC) = (p mod 17 = 0)"
  by (simp add: sync_aligned_def)

lemma sync_aligned_Cons:
  "sync_aligned p (x # xs) \<longleftrightarrow> (x = SYNC) = (p mod 17 = 0) \<and> sync_aligned (Suc p) xs"
  using sync_aligned_append [of p "[x]" xs] by (simp add: sync_aligned_single)

lemma sync_aligned_IDLE:
  assumes "\<And>j. j < n \<Longrightarrow> (p + j) mod 17 \<noteq> 0"
  shows "sync_aligned p (replicate n IDLE)"
proof -
  have "IDLE \<noteq> SYNC" by (simp add: IDLE_def SYNC_def)
  then show ?thesis using assms by (simp add: sync_aligned_def)
qed

lemma data_codeword_not_SYNC: "encodeCodeword (w OR FLAG_MESSAGE) \<noteq> SYNC"
  using is_data_codeword [of w] not_data_SYNC by auto

lemma aligned_put_codeword:
  assumes "aligned_state p s"
  shows "aligned_state p (put_codeword w s)"
proof -
  define L where "L = length (out s)"
  from assms have al: "sync_aligned (p + 1) (out s)" and lt: "wordPosition s < 16"
    and wp: "wordPosition s = (p + L) mod 17"
    by (simp_all add: aligned_state_def L_def)
  have m1: "(p + 1 + L) mod 17 = wordPosition s + 1"
  proof -
    have "(p + 1 + L) mod 17 = ((p + L) mod 17 + 1) mod 17"
      by (simp add: mod_simps add.commute add.left_commute)
    then show ?thesis using wp lt by simp
  qed
  show ?thesis
  proof (cases "wordPosition s = 15")
    case True
    have m2: "(p + 1 + L + 1) mod 17 = 0"
    proof -
      have "(p + 1 + L + 1) mod 17 = ((p + 1 + L) mod 17 + 1) mod 17"
        by (simp add: mod_simps)
      then show ?thesis using m1 True by simp
    qed
    have "(p + (L + 2)) mod 17 = 0" using m2 by (simp add: add.commute add.left_commute)
    then show ?thesis
      using True al m1 m2 data_codeword_not_SYNC [of w]
      by (simp add: aligned_state_def put_codeword_simps L_def [symmetric]
          sync_aligned_append [of _ "out s"] sync_aligned_Cons sync_aligned_Nil)
  next
    case False
    have "(p + (L + 1)) mod 17 = wordPosition s + 1"
      using m1 by (simp add: add.commute add.left_commute)
    then show ?thesis
      using False lt al m1 data_codeword_not_SYNC [of w]
      by (simp add: aligned_state_def put_codeword_simps L_def [symmetric]
          sync_aligned_append [of _ "out s"] sync_aligned_Cons sync_aligned_Nil)
  qed
qed

lemma aligned_state_update:
  "aligned_state p (s\<lparr>currentWord := w, currentNumBits := n\<rparr>) = aligned_state p s"
  by (simp add: aligned_state_def)

lemma aligned_encode_bit:
  assumes "aligned_state p s"
  shows "aligned_state p (encode_bit c s i)"
proof -
  have "aligned_state p (put_codeword w (s\<lparr>currentWord := w', currentNumBits := n\<rparr>))" for w w' n
    using assms by (intro aligned_put_codeword) (simp add: aligned_state_update)
  then show ?thesis
    using assms by (simp add: encode_bit_def Let_def aligned_state_update)
qed

lemma aligned_bits:
  assumes "aligned_state p s"
  shows "aligned_state p (foldl (encode_bit c) s [0..<n])"
  by (induction n) (simp_all add: assms aligned_encode_bit)

lemma aligned_chars:
  assumes "aligned_state p s"
  shows "aligned_state p (encode_chars str s)"
  using assms by (induction str arbitrary: s) (simp_all add: aligned_bits)

lemma aligned_encodeASCII:
  assumes "p < 16"
  shows "sync_aligned (p + 1) (snd (encodeASCII p str))"
    and "(p + 1 + length (snd (encodeASCII p str))) mod 17 \<noteq> 0"
proof -
  define s0 where "s0 = \<lparr>currentWord = 0, currentNumBits = 0, wordPosition = p,
                 numWordsWritten = 0, out = []\<rparr>"
  define s1 where "s1 = encode_chars str s0"
  define s2 where "s2 = (if currentNumBits s1 > 0
                then put_codeword (push_bit (20 - currentNumBits s1) (currentWord s1)) s1
                else s1)"
  have "aligned_state p s0" using assms by (simp add: aligned_state_def s0_def sync_aligned_Nil)
  then have "aligned_state p s1" unfolding s1_def by (rule aligned_chars)
  then have a: "aligned_state p s2" unfolding s2_def by (simp add: aligned_put_codeword)
  have e: "snd (encodeASCII p str) = out s2"
    by (simp add: encodeASCII_def s0_def s1_def s2_def Let_def)
  show "sync_aligned (p + 1) (snd (encodeASCII p str))"
    using a by (simp add: e aligned_state_def)
  have "(p + length (out s2)) mod 17 < 16" using a by (simp add: aligned_state_def)
  moreover have "(p + 1 + length (out s2)) mod 17 = ((p + length (out s2)) mod 17 + 1) mod 17"
    by (simp add: mod_simps add.commute add.left_commute)
  ultimately show "(p + 1 + length (snd (encodeASCII p str))) mod 17 \<noteq> 0"
    by (simp add: e)
qed

lemma text_codeword_not_SYNC: "encodeCodeword (x OR FLAG_TEXT_DATA) \<noteq> SYNC"
proof -
  have "bit FLAG_TEXT_DATA 0" by (simp add: FLAG_TEXT_DATA_def)
  then have "bit (encodeCodeword (x OR FLAG_TEXT_DATA)) 11"
    by (simp add: encodeCodeword_bit bit_or_iff)
  moreover have "\<not> bit SYNC 11" by (simp add: SYNC_def)
  ultimately show ?thesis by auto
qed

lemma sync_placement:
  assumes "length (transmission_body a msg) mod 17 \<noteq> 0"
  shows "sync_aligned 0 (drop 18 (encodeTransmission a msg))"
proof -
  define off where "off = unat (addressOffset a)"
  define ws where "ws = snd (encodeASCII (off + 1) msg)"
  define aw where "aw = encodeCodeword (push_bit 2 (signed_drop_bit 3 a) OR FLAG_TEXT_DATA)"
  define W where "W = length (transmission_body a msg)"
  have off: "off \<le> 14" using addressOffset_le [of a] by (simp add: off_def)
  then have p: "off + 1 < 16" by simp
  have body: "transmission_body a msg = [SYNC] @ replicate off IDLE @ [aw] @ ws @ [IDLE]"
    by (simp add: transmission_body_def Let_def off_def ws_def aw_def)
  have W: "W = off + 1 + 1 + length ws + 1" by (simp add: W_def body)
  have idle: "IDLE \<noteq> SYNC" by (simp add: IDLE_def SYNC_def)
  have 1: "sync_aligned 0 [SYNC]" by (simp add: sync_aligned_single)
  have 2: "sync_aligned 1 (replicate off IDLE)"
    by (rule sync_aligned_IDLE) (use off in simp)
  have 3: "sync_aligned (1 + off) [aw]"
    using off text_codeword_not_SYNC [of "push_bit 2 (signed_drop_bit 3 a)"]
    by (simp add: sync_aligned_single aw_def)
  have 4: "sync_aligned (off + 1 + 1) ws"
    unfolding ws_def using p by (rule aligned_encodeASCII(1))
  have n5: "(off + 1 + 1 + length ws) mod 17 \<noteq> 0"
    unfolding ws_def using p by (rule aligned_encodeASCII(2))
  then have 5: "sync_aligned (off + 1 + 1 + length ws) [IDLE]"
    using idle by (simp add: sync_aligned_single)
  have 6: "sync_aligned W (replicate (17 - W mod 17) IDLE)"
  proof (rule sync_aligned_IDLE)
    fix j assume "j < 17 - W mod 17"
    then have "W mod 17 + j < 17" by simp
    moreover have "(W + j) mod 17 = (W mod 17 + j) mod 17" by (simp add: mod_simps)
    ultimately have "(W + j) mod 17 = W mod 17 + j" by simp
    then show "(W + j) mod 17 \<noteq> 0" using assms by (simp add: W_def)
  qed
  have "sync_aligned 0 (transmission_body a msg)"
    unfolding body using 1 2 3 4 5
    by (simp add: sync_aligned_append sync_aligned_Cons sync_aligned_Nil)
  then have "sync_aligned 0 (transmission_body a msg @ replicate (17 - W mod 17) IDLE)"
    using 6 by (simp add: sync_aligned_append W_def)
  then show ?thesis by (simp add: drop_preamble W_def)
qed

lemma sync_placement_iff:
  "sync_aligned 0 (drop 18 (encodeTransmission a msg))
   \<longleftrightarrow> length (transmission_body a msg) mod 17 \<noteq> 0"
proof
  assume "length (transmission_body a msg) mod 17 \<noteq> 0"
  then show "sync_aligned 0 (drop 18 (encodeTransmission a msg))" by (rule sync_placement)
next
  assume a: "sync_aligned 0 (drop 18 (encodeTransmission a msg))"
  show "length (transmission_body a msg) mod 17 \<noteq> 0"
  proof
    assume z: "length (transmission_body a msg) mod 17 = 0"
    define W where "W = length (transmission_body a msg)"
    have "sync_aligned W (replicate 17 IDLE)"
      using a z by (simp add: drop_preamble sync_aligned_append W_def)
    then have "(replicate 17 IDLE ! 0 = SYNC) = ((W + 0) mod 17 = 0)"
      unfolding sync_aligned_def by (elim allE [of _ 0]) simp
    then show False using z by (simp add: W_def IDLE_def SYNC_def)
  qed
qed

lemma full_batch_iff:
  "length (transmission_body a msg) mod 17 = 0
   \<longleftrightarrow> (unat (addressOffset a) + 1 + (7 * strlen msg + 19) div 20) mod 16 = 15"
proof -
  define P where "P = unat (addressOffset a) + 1 + (7 * strlen msg + 19) div 20"
  define q r where "q = P div 16" and "r = P mod 16"
  have P: "P = 16 * q + r" and r: "r < 16" by (simp_all add: q_def r_def)
  have "length (transmission_body a msg) = P + 2 + P div 16"
    unfolding length_transmission_body Let_def P_def by (rule refl)
  also have "\<dots> = 16 * q + r + 2 + q"
    unfolding q_def [symmetric] by (simp add: P)
  finally have "length (transmission_body a msg) = 16 * q + r + 2 + q" .
  moreover have "(16 * q + r + 2 + q) mod 17 = 0 \<longleftrightarrow> r = 15"
  proof (cases "r = 15")
    case True
    have "(16 * q + r + 2 + q) mod 17 = 0" using True by (rule mod_17_full)
    then show ?thesis using True by simp
  next
    case False
    with r have "r < 15" by simp
    then have "(16 * q + r + 2 + q) mod 17 = r + 2" by (rule mod_17_part)
    then show ?thesis using False by simp
  qed
  ultimately show ?thesis by (simp add: P_def r_def)
qed

text \<open>
  Claim C4, evaluated where it fails. For address 7 and the empty message, and for
  address 6 and the message \<open>abc\<close>, the word at index 17 after the preamble, where the
  second batch starts, is an IDLE word and not the SYNC word.
\<close>

theorem sync_missing_after_full_batch:
  "17 < length (drop 18 (encodeTransmission 7 []))
   \<and> drop 18 (encodeTransmission 7 []) ! 17 = IDLE
   \<and> 17 < length (drop 18 (encodeTransmission 6 [0x61, 0x62, 0x63]))
   \<and> drop 18 (encodeTransmission 6 [0x61, 0x62, 0x63]) ! 17 = IDLE
   \<and> IDLE \<noteq> SYNC"
proof -
  have o7: "unat (addressOffset 7) = 14" by (simp add: unat_addressOffset)
  have e: "snd (encodeASCII n []) = []" for n by (simp add: encodeASCII_def)
  have b7: "length (transmission_body 7 []) = 17"
    by (simp add: transmission_body_def o7 e)
  have n: "(body @ replicate 17 IDLE) ! 17 = IDLE" if "length body = 17" for body :: "u32 list"
    using that by (simp add: nth_append)
  have "IDLE \<noteq> SYNC" by (simp add: IDLE_def SYNC_def)
  then show ?thesis
    using b7 body_6_abc n [OF b7] n [OF body_6_abc] by (simp add: drop_preamble)
qed

section \<open>The resampling loop\<close>

lemma length_resample_loop:
  "length (resample_loop sz sampleRate samples beyond outputSize i)
   = 2 * ((outputSize - i + 1) div 2)"
proof (induction sz sampleRate samples beyond outputSize i rule: resample_loop.induct)
  case (1 sz sampleRate samples beyond outputSize i)
  show ?case
  proof (cases "i < outputSize")
    case True
    then have "outputSize - i + 1 = (outputSize - (i + 2) + 1) + 2 \<or> outputSize - i = 1"
      by linarith
    then have "2 * ((outputSize - i + 1) div 2) = 2 + 2 * ((outputSize - (i + 2) + 1) div 2)"
      using True by (auto simp: Suc_diff_le)
    then show ?thesis
      using 1 True by (subst resample_loop.simps) (simp add: Let_def)
  next
    case False
    then show ?thesis by (subst resample_loop.simps) simp
  qed
qed

lemma nth_resample_loop:
  assumes "i + 2 * j < outputSize"
  shows "resample_loop sz sampleRate samples beyond outputSize i ! (2 * j)
           = sample_lo (read_sample samples beyond (resample_index sz sampleRate (i + 2 * j)))"
    and "resample_loop sz sampleRate samples beyond outputSize i ! (2 * j + 1)
           = sample_hi (read_sample samples beyond (resample_index sz sampleRate (i + 2 * j)))"
  using assms
proof (induction j arbitrary: i)
  case 0
  {
    case 1
    then show ?case by (subst resample_loop.simps) (simp add: Let_def)
  next
    case 2
    then show ?case by (subst resample_loop.simps) (simp add: Let_def)
  }
next
  case (Suc j)
  {
    case 1
    then have "i + 2 + 2 * j < outputSize" and "i < outputSize" by simp_all
    then show ?case
      using Suc.IH(1) [of "i + 2"]
      by (subst resample_loop.simps) (simp add: Let_def add.assoc)
  next
    case 2
    then have "i + 2 + 2 * j < outputSize" and "i < outputSize" by simp_all
    then show ?case
      using Suc.IH(2) [of "i + 2"]
      by (subst resample_loop.simps) (simp add: Let_def add.assoc)
  }
qed

section \<open>The sample buffer\<close>

lemma length_concat_replicate:
  "length (concat (map (\<lambda>i. replicate r (f i)) [0..<n])) = n * r"
  by (induction n) simp_all

lemma nth_concat_replicate:
  assumes "k < n * r"
  shows "concat (map (\<lambda>i. replicate r (f i)) [0..<n]) ! k = f (k div r)"
  using assms
proof (induction n)
  case 0
  then show ?case by simp
next
  case (Suc n)
  show ?case
  proof (cases "k < n * r")
    case True
    then show ?thesis using Suc.IH by (simp add: nth_append length_concat_replicate)
  next
    case False
    then have "n * r \<le> k" by simp
    moreover have "k < n * r + r" using Suc.prems by (simp add: add.commute)
    ultimately have "k div r = n"
      by (intro div_nat_eqI) (simp_all add: mult.commute)
    moreover have "k - n * r < r" using \<open>k < n * r + r\<close> \<open>n * r \<le> k\<close> by linarith
    ultimately show ?thesis
      using False by (simp add: nth_append length_concat_replicate)
  qed
qed

lemma length_word_samples: "length (word_samples r val) = 32 * r"
  by (simp add: word_samples_def length_concat_replicate)

lemma nth_word_samples:
  "k < 32 * r \<Longrightarrow> word_samples r val ! k = symbol_sample val (k div r)"
  unfolding word_samples_def by (rule nth_concat_replicate)

lemma length_pcm_samples: "length (pcm_samples r tx) = length tx * 32 * r"
  by (induction tx) (simp_all add: pcm_samples_def length_word_samples algebra_simps)

lemma pcm_samples_Cons: "pcm_samples r (w # tx) = word_samples r w @ pcm_samples r tx"
  by (simp add: pcm_samples_def)

lemma nth_pcm_samples:
  assumes "k < length tx * 32 * r"
  shows "pcm_samples r tx ! k = symbol_sample (tx ! (k div (32 * r))) (k mod (32 * r) div r)"
  using assms
proof (induction tx arbitrary: k)
  case Nil
  then show ?case by simp
next
  case (Cons w tx)
  show ?case
  proof (cases "k < 32 * r")
    case True
    then show ?thesis
      by (simp add: pcm_samples_Cons nth_append length_word_samples nth_word_samples)
  next
    case False
    then have ge: "32 * r \<le> k" by simp
    then have lt: "k - 32 * r < length tx * 32 * r" using Cons.prems by (simp add: algebra_simps)
    have r: "0 < 32 * r" using Cons.prems by (cases r) simp_all
    have "k div (32 * r) = Suc ((k - 32 * r) div (32 * r))"
      using ge r by (simp add: le_div_geq)
    moreover have "k mod (32 * r) = (k - 32 * r) mod (32 * r)"
      using ge by (simp add: le_mod_geq)
    ultimately show ?thesis
      using False Cons.IH [OF lt]
      by (simp add: pcm_samples_Cons nth_append length_word_samples)
  qed
qed

lemma symbol_sample_eq:
  "symbol_sample val bitNum = (if bit val (31 - bitNum) then - 16383 else 16383)"
  by (simp add: symbol_sample_def Let_def and1_of_bool)

section \<open>Bytes of a sample and the result of the synthesizer\<close>

lemma bit_0xFF: "bit (0xFF :: u32) n \<longleftrightarrow> n < 8"
proof -
  have e: "(0xFF :: u32) = mask 8" by (simp add: mask_eq_exp_minus_1)
  have "bit (mask 8 :: u32) n \<longleftrightarrow> n < 8" by (simp only: bit_mask_iff possible_bit_word) auto
  then show ?thesis unfolding e .
qed

lemma bit_255_int: "bit (255 :: int) n \<longleftrightarrow> n < 8"
proof -
  have e: "(255 :: int) = mask 8" by (simp add: mask_eq_exp_minus_1)
  have "bit (mask 8 :: int) n \<longleftrightarrow> n < 8" by (simp only: bit_mask_iff possible_bit_int) auto
  then show ?thesis unfolding e .
qed

lemma sample_lo_eq: "sample_lo s = ucast s"
proof (rule bit_word_eqI)
  fix n assume "n < LENGTH(8)"
  then show "bit (sample_lo s) n = bit (ucast s :: u8) n"
    by (auto simp: sample_lo_def bit_ucast_iff bit_and_iff bit_0xFF bit_255_int bit_signed_iff)
qed

lemma sample_hi_eq: "sample_hi s = ucast (drop_bit 8 s)"
proof (rule bit_word_eqI)
  fix n assume "n < LENGTH(8)"
  then show "bit (sample_hi s) n = bit (ucast (drop_bit 8 s) :: u8) n"
    by (cases "n = 7")
      (auto simp: sample_hi_def bit_ucast_iff bit_and_iff bit_0xFF bit_255_int bit_signed_iff
        bit_signed_drop_bit_iff bit_drop_bit_eq min_def)
qed

subsection \<open>Lengths that fit \<open>size_t\<close>\<close>

lemma size_wrap_fits: "x < 2 ^ sz \<Longrightarrow> size_wrap sz x = x"
  by (simp add: size_wrap_def)

lemma fits_32:
  assumes "32 \<le> sz" and "x < 2 ^ 32"
  shows "x < (2::nat) ^ sz"
proof -
  have "(2::nat) ^ 32 \<le> 2 ^ sz" using assms(1) by (rule power_increasing) simp
  then show ?thesis using assms(2) by (rule less_le_trans [rotated])
qed

lemma pcmTransmissionLength_eq:
  assumes "0 < baudRate"
    and "n * 32 * sampleRate < 2 ^ sz"
    and "n * 32 * sampleRate div baudRate * 2 < 2 ^ sz"
  shows "pcmTransmissionLength sz sampleRate baudRate n
         = Inr (n * 32 * sampleRate div baudRate * 2)"
proof -
  have "size_wrap sz (size_wrap sz (n * 32) * sampleRate) = n * 32 * sampleRate mod 2 ^ sz"
    by (simp add: size_wrap_def mod_mult_left_eq)
  also have "\<dots> = n * 32 * sampleRate" using assms(2) by simp
  finally have "size_wrap sz (size_wrap sz (n * 32) * sampleRate) = n * 32 * sampleRate" .
  then show ?thesis
    using assms(1) size_wrap_fits [OF assms(3)] by (simp add: pcmTransmissionLength_def)
qed

lemma pcmTransmissionLength_even:
  assumes "pcmTransmissionLength sz sampleRate baudRate n = Inr L"
  shows "\<exists>k. L = k * 2"
proof (cases sz)
  case 0
  then have "L = 0" using assms
    by (auto simp: pcmTransmissionLength_def size_wrap_def split: if_splits)
  then show ?thesis by simp
next
  case (Suc sz')
  define x where "x = size_wrap sz (size_wrap sz (n * 32) * sampleRate) div baudRate"
  have "L = (x * 2) mod (2 ^ sz' * 2)"
    using assms Suc
    by (auto simp: pcmTransmissionLength_def size_wrap_def x_def mult.commute split: if_splits)
  also have "\<dots> = (x mod 2 ^ sz') * 2" by (simp add: mult_mod_left)
  finally show ?thesis by blast
qed

lemma pcmEncodeTransmission_eq:
  assumes "pcmTransmissionLength sz sampleRate baudRate (length tx) = Inr L"
  shows "pcmEncodeTransmission sz sampleRate baudRate tx beyond
         = Inr (resample_loop sz sampleRate (pcm_samples (SYMRATE div baudRate) tx) beyond L 0)"
proof -
  have b: "baudRate \<noteq> 0"
    using assms by (auto simp: pcmTransmissionLength_def split: if_splits)
  have "L = 0" if "sampleRate = 0"
    using assms that b by (simp add: pcmTransmissionLength_def size_wrap_def)
  then show ?thesis
    using assms b by (auto simp: pcmEncodeTransmission_def Let_def)
qed



subsection \<open>Reads inside the sample buffer\<close>

text \<open>
  The arithmetic of the nearest-neighbour index: when the baud rate divides the symbol
  rate, output sample \<open>j\<close> is taken from inside the waveform.
\<close>

lemma nearest_index_in_bounds:
  assumes "baudRate dvd SYMRATE" and "0 < sampleRate"
    and "j < n * 32 * sampleRate div baudRate"
  shows "j * SYMRATE div sampleRate < n * 32 * (SYMRATE div baudRate)"
proof -
  define reps where "reps = SYMRATE div baudRate"
  have S: "baudRate * reps = SYMRATE"
    unfolding reps_def using assms(1) by (rule dvd_mult_div_cancel)
  have "SYMRATE \<noteq> 0" by (simp add: SYMRATE_def)
  then have "baudRate * reps \<noteq> 0" unfolding S .
  then have b: "0 < baudRate" and r: "0 < reps" by simp_all
  have "Suc j \<le> n * 32 * sampleRate div baudRate" using assms(3) by simp
  then have "Suc j * baudRate \<le> n * 32 * sampleRate div baudRate * baudRate"
    by (rule mult_le_mono1)
  also have "\<dots> \<le> n * 32 * sampleRate" by (rule div_times_less_eq_dividend)
  finally have "j * baudRate < n * 32 * sampleRate" using b by simp
  then have "j * baudRate * reps < n * 32 * sampleRate * reps" using r by simp
  moreover have "j * baudRate * reps = j * SYMRATE" unfolding S [symmetric] by simp
  moreover have "n * 32 * sampleRate * reps = (n * 32 * reps) * sampleRate" by simp
  ultimately have "j * SYMRATE < (n * 32 * reps) * sampleRate" by simp
  then show ?thesis unfolding reps_def [symmetric] by (rule less_mult_imp_div_less)
qed

lemma resample_index_exact:
  assumes "j * SYMRATE < 2 ^ sz"
  shows "resample_index sz sampleRate (2 * j) = j * SYMRATE div sampleRate"
  using assms by (simp add: resample_index_def size_wrap_def)





section \<open>The bytes of an output sample\<close>

lemma pcm_output_sample:
  assumes "pcmTransmissionLength sz sampleRate baudRate (length tx) = Inr L" and "2 * j < L"
  shows "\<exists>bytes. pcmEncodeTransmission sz sampleRate baudRate tx beyond = Inr bytes
           \<and> bytes ! (2 * j)
               = ucast (read_sample (pcm_samples (SYMRATE div baudRate) tx) beyond
                          (resample_index sz sampleRate (2 * j)))
           \<and> bytes ! (2 * j + 1)
               = ucast (drop_bit 8 (read_sample (pcm_samples (SYMRATE div baudRate) tx) beyond
                          (resample_index sz sampleRate (2 * j))))"
proof -
  have "0 + 2 * j < L" using assms(2) by simp
  note n = nth_resample_loop [OF this]
  show ?thesis
    unfolding pcmEncodeTransmission_eq [OF assms(1)]
    using n [of sz sampleRate "pcm_samples (SYMRATE div baudRate) tx" beyond]
    by (simp add: sample_lo_eq sample_hi_eq)
qed

lemma pcm_output_waveform:
  assumes "baudRate dvd SYMRATE" and "0 < sampleRate"
    and "length tx * 32 * sampleRate < 2 ^ sz"
    and "length tx * 32 * sampleRate div baudRate * 2 < 2 ^ sz"
    and "j < length tx * 32 * sampleRate div baudRate"
    and "j * SYMRATE < 2 ^ sz"
  shows "\<exists>bytes. pcmEncodeTransmission sz sampleRate baudRate tx beyond = Inr bytes
           \<and> bytes ! (2 * j)
               = ucast (pcm_samples (SYMRATE div baudRate) tx ! (j * SYMRATE div sampleRate))
           \<and> bytes ! (2 * j + 1)
               = ucast (drop_bit 8
                   (pcm_samples (SYMRATE div baudRate) tx ! (j * SYMRATE div sampleRate)))"
proof -
  have "0 < SYMRATE" by (simp add: SYMRATE_def)
  then have b: "0 < baudRate" using assms(1) by (cases baudRate) simp_all
  have l: "pcmTransmissionLength sz sampleRate baudRate (length tx)
           = Inr (length tx * 32 * sampleRate div baudRate * 2)"
    using b assms(3,4) by (rule pcmTransmissionLength_eq)
  have j: "2 * j < length tx * 32 * sampleRate div baudRate * 2" using assms(5) by simp
  have "j * SYMRATE div sampleRate < length (pcm_samples (SYMRATE div baudRate) tx)"
    using nearest_index_in_bounds [OF assms(1,2,5)] by (simp add: length_pcm_samples)
  then show ?thesis
    using pcm_output_sample [OF l j, of beyond]
    by (simp add: read_sample_def resample_index_exact [OF assms(6)])
qed

subsection \<open>One word at sample rate 38400 and baud rate 1000\<close>

lemma one_word_length:
  assumes "32 \<le> sz"
  shows "pcmTransmissionLength sz 38400 1000 (length [0 :: u32]) = Inr 2456"
proof -
  have "pcmTransmissionLength sz 38400 1000 (length [0 :: u32])
        = Inr (length [0 :: u32] * 32 * 38400 div 1000 * 2)"
    by (rule pcmTransmissionLength_eq) (simp_all add: fits_32 [OF assms])
  then show ?thesis by simp
qed

lemma one_word_index:
  assumes "32 \<le> sz"
  shows "resample_index sz 38400 (2 * 1216) = 1216"
proof -
  have "1216 * SYMRATE < 2 ^ sz" by (rule fits_32 [OF assms]) (simp add: SYMRATE_def)
  then show ?thesis by (simp only: resample_index_exact) (simp add: SYMRATE_def)
qed

lemma one_word_samples: "length (pcm_samples (SYMRATE div 1000) [0]) = 1216"
  by (simp add: length_pcm_samples SYMRATE_def)

lemma one_word_read:
  assumes "32 \<le> sz"
  shows "read_sample (pcm_samples (SYMRATE div 1000) [0]) beyond
           (resample_index sz 38400 (2 * 1216)) = beyond 1216"
  unfolding one_word_index [OF assms] by (simp add: read_sample_def one_word_samples)

lemma one_word_past_waveform:
  assumes "32 \<le> sz"
  shows "\<exists>bytes. pcmEncodeTransmission sz 38400 1000 [0] (\<lambda>i. 0) = Inr bytes
           \<and> length bytes = 2 * 1228
           \<and> bytes ! (2 * 1216) = 0 \<and> bytes ! (2 * 1216 + 1) = 0"
proof -
  note l = one_word_length [OF assms]
  have j: "2 * 1216 < (2456 :: nat)" by simp
  obtain bytes where e: "pcmEncodeTransmission sz 38400 1000 [0] (\<lambda>i. 0) = Inr bytes"
    and lo: "bytes ! (2 * 1216) = 0" and hi: "bytes ! (2 * 1216 + 1) = 0"
    using pcm_output_sample [OF l j, of "\<lambda>i. 0"] unfolding one_word_read [OF assms] by auto
  have "length bytes = 2 * 1228"
    using e unfolding pcmEncodeTransmission_eq [OF l] by (auto simp: length_resample_loop)
  then show ?thesis using e lo hi by blast
qed

lemma one_word_depends_on_memory:
  assumes "32 \<le> sz"
  shows "pcmEncodeTransmission sz 38400 1000 [0] (\<lambda>i. 0)
         \<noteq> pcmEncodeTransmission sz 38400 1000 [0] (\<lambda>i. 1)"
proof -
  note l = one_word_length [OF assms]
  have j: "2 * 1216 < (2456 :: nat)" by simp
  obtain bytes0 where e0: "pcmEncodeTransmission sz 38400 1000 [0] (\<lambda>i. 0) = Inr bytes0"
    and n0: "bytes0 ! (2 * 1216) = 0"
    using pcm_output_sample [OF l j, of "\<lambda>i. 0"] unfolding one_word_read [OF assms] by auto
  obtain bytes1 where e1: "pcmEncodeTransmission sz 38400 1000 [0] (\<lambda>i. 1) = Inr bytes1"
    and n1: "bytes1 ! (2 * 1216) = 1"
    using pcm_output_sample [OF l j, of "\<lambda>i. 1"] unfolding one_word_read [OF assms] by auto
  have "bytes0 \<noteq> bytes1" using n0 n1 by auto
  then show ?thesis unfolding e0 e1 by simp
qed

text \<open>
  Claim C8, evaluated where it fails. With sample rate 38400, baud rate 1000 and one
  word, each bit is repeated 38 times, so the waveform has 1216 samples, numbered
  0 to 1215. There are 1228 output samples, and output sample 1216 is read from index
  1216, past the waveform: with zeros in the memory after the buffer, bytes 2432 and 2433
  are 0, which is not the value of any waveform sample. No product wraps around here,
  so this is so for a 32-bit \<open>size_t\<close> and for a 64-bit one.
\<close>

theorem resample_reads_past_waveform:
  "(\<exists>bytes. pcmEncodeTransmission 32 38400 1000 [0] (\<lambda>i. 0) = Inr bytes
       \<and> length bytes = 2 * 1228
       \<and> bytes ! (2 * 1216) = 0 \<and> bytes ! (2 * 1216 + 1) = 0)
   \<and> (\<exists>bytes. pcmEncodeTransmission 64 38400 1000 [0] (\<lambda>i. 0) = Inr bytes
       \<and> length bytes = 2 * 1228
       \<and> bytes ! (2 * 1216) = 0 \<and> bytes ! (2 * 1216 + 1) = 0)
   \<and> length (pcm_samples (SYMRATE div 1000) [0]) = 1216
   \<and> 1216 * SYMRATE div 38400 = 1216
   \<and> resample_index 32 38400 (2 * 1216) = 1216
   \<and> resample_index 64 38400 (2 * 1216) = 1216
   \<and> set (pcm_samples (SYMRATE div 1000) [0]) = {16383}"
proof -
  have i: "1216 * SYMRATE div 38400 = 1216" by (simp add: SYMRATE_def)
  have s: "set (pcm_samples (SYMRATE div 1000) [0]) = {16383}"
    by (simp add: pcm_samples_def word_samples_def symbol_sample_eq SYMRATE_def)
  have a: "(32 :: nat) \<le> 32" and b: "(32 :: nat) \<le> 64" by simp_all
  show ?thesis
    using one_word_past_waveform [OF a] one_word_past_waveform [OF b] one_word_samples i
      one_word_index [OF a] one_word_index [OF b] s
    by - (intro conjI; assumption)
qed

text \<open>
  Claim C9, evaluated where it fails. With sample rate 38400, baud rate 1000 and one
  word the buffer holds \<open>1 * 32 * (38400 div 1000) = 1216\<close> samples, the output has
  2456 bytes, and the loop counter 2432 reads index 1216, which is not below 1216. The
  bytes returned therefore depend on the memory after the buffer. No product wraps
  around here, so this is so for a 32-bit \<open>size_t\<close> and for a 64-bit one.
\<close>

theorem resample_index_out_of_bounds:
  "pcmTransmissionLength 32 38400 1000 (length [0 :: u32]) = Inr 2456
   \<and> pcmTransmissionLength 64 38400 1000 (length [0 :: u32]) = Inr 2456
   \<and> 2 * 1216 < (2456 :: nat)
   \<and> resample_index 32 38400 (2 * 1216) = 1216
   \<and> resample_index 64 38400 (2 * 1216) = 1216
   \<and> length [0 :: u32] * 32 * (SYMRATE div 1000) = 1216
   \<and> length (pcm_samples (SYMRATE div 1000) [0]) = 1216
   \<and> pcmEncodeTransmission 32 38400 1000 [0] (\<lambda>i. 0)
       \<noteq> pcmEncodeTransmission 32 38400 1000 [0] (\<lambda>i. 1)
   \<and> pcmEncodeTransmission 64 38400 1000 [0] (\<lambda>i. 0)
       \<noteq> pcmEncodeTransmission 64 38400 1000 [0] (\<lambda>i. 1)"
proof -
  have a: "(32 :: nat) \<le> 32" and b: "(32 :: nat) \<le> 64" by simp_all
  have j: "2 * 1216 < (2456 :: nat)" by simp
  have n: "length [0 :: u32] * 32 * (SYMRATE div 1000) = 1216" by (simp add: SYMRATE_def)
  show ?thesis
    using one_word_length [OF a] one_word_length [OF b] j one_word_index [OF a]
      one_word_index [OF b] n one_word_samples one_word_depends_on_memory [OF a]
      one_word_depends_on_memory [OF b]
    by - (intro conjI; assumption)
qed

end
